theory Spec2Isabelle
  imports Main
begin

section \<open>PollingExecutor: the data of the model\<close>

text \<open>
  The class \<^verbatim>\<open>PollingExecutor<TPollFunctor, TDispatchFunctor>\<close> of
  \<^verbatim>\<open>include/thousandeyes/futures/PollingExecutor.h\<close> is used from several threads.
  Every access to \<^verbatim>\<open>waitables_\<close>, \<^verbatim>\<open>active_\<close> and \<^verbatim>\<open>isPollerRunning_\<close> happens
  inside a \<^verbatim>\<open>std::lock_guard\<close> on the one \<^verbatim>\<open>mutex_\<close>, so a run of the class is an
  interleaving of its critical sections and of the code between them. The model is
  a transition system whose steps are exactly these pieces of the source; what a
  thread keeps in local variables between two pieces (the popped \<^verbatim>\<open>w\<close>, the
  \<^verbatim>\<open>pending\<close> queue and \<^verbatim>\<open>wasActive\<close> of \<^verbatim>\<open>stop\<close>) is part of the state.
\<close>

text \<open>A \<^verbatim>\<open>std::unique_ptr<Waitable>\<close> is modelled by the identity of the object it owns.\<close>

type_synonym waitable = nat

text \<open>
  The \<^verbatim>\<open>std::exception_ptr\<close> handed to \<^verbatim>\<open>Waitable::dispatch\<close> is an \<open>error option\<close>:
  \<open>None\<close> is \<^verbatim>\<open>nullptr\<close>, \<open>WaitError e\<close> is the exception \<open>e\<close> caught around
  \<^verbatim>\<open>w->wait(q_)\<close>, \<open>ExecutorStopped\<close> is the
  \<^verbatim>\<open>WaitableWaitException("Executor stoped")\<close> made by \<^verbatim>\<open>stop\<close>.
\<close>

datatype error = WaitError nat | ExecutorStopped

text \<open>What one call \<^verbatim>\<open>w->wait(q_)\<close> does: it returns true, returns false, or throws.\<close>

datatype outcome = Ready | NotReady | Threw nat

text \<open>\<^verbatim>\<open>shared_from_this\<close> throws \<^verbatim>\<open>std::bad_weak_ptr\<close> on an object no \<^verbatim>\<open>shared_ptr\<close> owns.\<close>

datatype exn = BadWeakPtr

text \<open>
  One instance of the lambda passed to \<^verbatim>\<open>pollFunc_\<close> (lines 92 to 133) is either at
  the head of its \<^verbatim>\<open>while (true)\<close> loop, about to take the lock (line 97), or it has
  popped \<^verbatim>\<open>w\<close> and released the lock (line 109).
\<close>

datatype poller = AtTop | Holding waitable

text \<open>
  A call of \<^verbatim>\<open>stop\<close> that has left its critical section holds \<^verbatim>\<open>wasActive\<close> and
  \<^verbatim>\<open>pending\<close>; it is at line 149, at line 151 (after \<^verbatim>\<open>pollFunc_.stop()\<close>) or at
  line 154.
\<close>

datatype stop_frame =
    AtRunners bool "waitable list"
  | AtDispatchStop "waitable list"
  | AtDrain "waitable list"

fun frame_pending :: "stop_frame \<Rightarrow> waitable list" where
  "frame_pending (AtRunners wasActive pending) = pending"
| "frame_pending (AtDispatchStop pending) = pending"
| "frame_pending (AtDrain pending) = pending"

subsection \<open>The task runners\<close>

text \<open>
  Modelled from the spec: the types \<^verbatim>\<open>TPollFunctor\<close> and \<^verbatim>\<open>TDispatchFunctor\<close> are
  template parameters, their code is not part of the header. The specification
  (section 6) gives the capability: \<open>start()\<close>; \<open>submit(work)\<close>, which enqueues work
  for asynchronous execution and does not block; \<open>stop()\<close>, which blocks until
  previously submitted work has finished executing. A runner is the list of the
  work items submitted and not yet finished; any of them may run at any time (one
  thread, a pool). \<open>stop\<close> returns \<open>None\<close> while it has to block. The specification
  does not say what happens to work submitted after \<open>stop\<close>: the caller of \<open>submit\<close>
  passes \<open>late\<close>, which tells whether this runner still runs such work (\<open>True\<close>) or
  discards it (\<open>False\<close>), and the discarded items are kept in \<open>dropped\<close>.
\<close>

record 'a runner =
  started :: bool
  stopped :: bool
  tasks :: "'a list"
  dropped :: "'a list"

text \<open>Modelled from the spec: a runner as constructed, before \<open>start()\<close>, with no work.\<close>

definition new_runner :: "'a runner" where
  "new_runner = \<lparr>started = False, stopped = False, tasks = [], dropped = []\<rparr>"

text \<open>Modelled from the spec: \<open>start()\<close>.\<close>

definition start :: "'a runner \<Rightarrow> 'a runner" where
  "start r = r\<lparr>started := True\<rparr>"

text \<open>Modelled from the spec: \<open>submit(work)\<close>, which is \<^verbatim>\<open>operator()\<close> of the functor; it
  does not block.\<close>

definition submit :: "bool \<Rightarrow> 'a \<Rightarrow> 'a runner \<Rightarrow> 'a runner" where
  "submit late t r =
     (if stopped r \<and> \<not> late then r\<lparr>dropped := dropped r @ [t]\<rparr>
      else r\<lparr>tasks := tasks r @ [t]\<rparr>)"

text \<open>Modelled from the spec: a work item of the runner has finished executing.\<close>

definition finish :: "'a \<Rightarrow> 'a runner \<Rightarrow> 'a runner" where
  "finish t r = r\<lparr>tasks := remove1 t (tasks r)\<rparr>"

text \<open>Modelled from the spec: a work item of the runner has run one piece of its code
  and goes on as \<open>t'\<close>.\<close>

definition resume :: "'a \<Rightarrow> 'a \<Rightarrow> 'a runner \<Rightarrow> 'a runner" where
  "resume t t' r = r\<lparr>tasks := t' # remove1 t (tasks r)\<rparr>"

text \<open>Modelled from the spec: \<open>stop()\<close>, which returns once all submitted work has
  finished and is blocked (\<open>None\<close>) until then.\<close>

definition stop_runner :: "'a runner \<Rightarrow> 'a runner option" where
  "stop_runner r = (if tasks r = [] then Some (r\<lparr>stopped := True\<rparr>) else None)"

subsection \<open>The object\<close>

text \<open>
  The members of the class, the local state of the calls in progress, and three
  logs of what has been observed from outside: the calls of \<^verbatim>\<open>watch\<close> (with whether
  the operation was pushed), of \<^verbatim>\<open>Waitable::wait\<close> (with its outcome) and of
  \<^verbatim>\<open>Waitable::dispatch\<close> (with its argument), each in the order of the calls.
  \<open>owned\<close> tells whether a \<^verbatim>\<open>shared_ptr\<close> manages the object; \<open>submitting\<close> counts the
  calls of \<^verbatim>\<open>watch\<close> that have left the critical section at line 88 and have not yet
  reached \<^verbatim>\<open>pollFunc_\<close> at line 92; \<open>destructing\<close> tells that the destructor has
  started. The timeout \<^verbatim>\<open>q_\<close> is not kept: what \<^verbatim>\<open>wait(q_)\<close> answers is given with each
  step.
\<close>

record state =
  owned :: bool
  active :: bool
  isPollerRunning :: bool
  waitables :: "waitable list"
  pollFunc :: "poller runner"
  dispatchFunc :: "(waitable \<times> error option) runner"
  submitting :: nat
  stops :: "stop_frame list"
  destructing :: bool
  watched :: "(waitable \<times> bool) list"
  waited :: "(waitable \<times> outcome) list"
  dispatched :: "(waitable \<times> error option) list"

text \<open>The constructors (lines 40 to 62): both runners are started, the members have
  their default initialisers \<^verbatim>\<open>active_{ true }\<close> and \<^verbatim>\<open>isPollerRunning_{ false }\<close>.\<close>

definition PollingExecutor :: "bool \<Rightarrow> state" where
  "PollingExecutor shared =
     \<lparr>owned = shared, active = True, isPollerRunning = False, waitables = [],
      pollFunc = start new_runner, dispatchFunc = start new_runner,
      submitting = 0, stops = [], destructing = False,
      watched = [], waited = [], dispatched = []\<rparr>"

section \<open>The code\<close>

subsection \<open>watch\<close>

text \<open>Lines 74 to 88, one critical section: return if not active, push, return if a
  poller is running, else set the flag and go on to line 90.\<close>

definition watch_locked :: "waitable \<Rightarrow> state \<Rightarrow> state" where
  "watch_locked w s =
     (if \<not> active s then s\<lparr>watched := watched s @ [(w, False)]\<rparr>
      else
        let s1 = s\<lparr>waitables := waitables s @ [w], watched := watched s @ [(w, True)]\<rparr>
        in if isPollerRunning s1 then s1
           else s1\<lparr>isPollerRunning := True, submitting := Suc (submitting s1)\<rparr>)"

text \<open>Lines 90 to 92: \<^verbatim>\<open>shared_from_this()\<close>, then the lambda is given to \<^verbatim>\<open>pollFunc_\<close>.
  The first component is the exception that leaves \<^verbatim>\<open>watch\<close>, if any.\<close>

definition watch_submit :: "bool \<Rightarrow> state \<Rightarrow> exn option \<times> state" where
  "watch_submit late s =
     (if \<not> owned s then (Some BadWeakPtr, s\<lparr>submitting := submitting s - 1\<rparr>)
      else (None, s\<lparr>submitting := submitting s - 1,
                     pollFunc := submit late AtTop (pollFunc s)\<rparr>))"

subsection \<open>The poll loop\<close>

text \<open>Lines 97 to 107, one critical section: when the queue is empty or the object
  is not active the flag is cleared and the loop is left, which ends the lambda;
  otherwise the front of the queue is popped.\<close>

definition poll_top :: "state \<Rightarrow> state" where
  "poll_top s =
     (case waitables s of
        [] \<Rightarrow> s\<lparr>isPollerRunning := False, pollFunc := finish AtTop (pollFunc s)\<rparr>
      | w # ws \<Rightarrow>
          if \<not> active s
          then s\<lparr>isPollerRunning := False, pollFunc := finish AtTop (pollFunc s)\<rparr>
          else s\<lparr>waitables := ws, pollFunc := resume AtTop (Holding w) (pollFunc s)\<rparr>)"

text \<open>Lines 109 to 117: \<^verbatim>\<open>ready\<close> starts as true and \<^verbatim>\<open>error\<close> as \<^verbatim>\<open>nullptr\<close>; a throwing
  \<^verbatim>\<open>wait\<close> leaves \<^verbatim>\<open>ready\<close> true and sets \<^verbatim>\<open>error\<close>.\<close>

fun poll_wait :: "outcome \<Rightarrow> bool \<times> error option" where
  "poll_wait Ready = (True, None)"
| "poll_wait NotReady = (False, None)"
| "poll_wait (Threw e) = (True, Some (WaitError e))"

text \<open>Lines 109 to 131 for the popped \<open>w\<close>: the wait, then either the push back under
  the lock and \<^verbatim>\<open>continue\<close>, or the hand-over of \<^verbatim>\<open>w\<close> and \<^verbatim>\<open>error\<close> to \<^verbatim>\<open>dispatchFunc_\<close>.
  The wait touches no member, so it is taken together with the step that follows it.\<close>

definition poll_body :: "waitable \<Rightarrow> outcome \<Rightarrow> bool \<Rightarrow> state \<Rightarrow> state" where
  "poll_body w out late s =
     (let (ready, err) = poll_wait out;
          s1 = s\<lparr>waited := waited s @ [(w, out)]\<rparr>
      in if \<not> ready
         then s1\<lparr>waitables := waitables s1 @ [w],
                 pollFunc := resume (Holding w) AtTop (pollFunc s1)\<rparr>
         else s1\<lparr>dispatchFunc := submit late (w, err) (dispatchFunc s1),
                 pollFunc := resume (Holding w) AtTop (pollFunc s1)\<rparr>)"

text \<open>Line 130, the work item run by the dispatch runner: \<^verbatim>\<open>w->dispatch(error)\<close>.\<close>

definition dispatch_run :: "waitable \<times> error option \<Rightarrow> state \<Rightarrow> state" where
  "dispatch_run t s =
     s\<lparr>dispatched := dispatched s @ [t], dispatchFunc := finish t (dispatchFunc s)\<rparr>"

subsection \<open>stop\<close>

text \<open>Lines 138 to 147, one critical section.\<close>

definition stop_locked :: "state \<Rightarrow> state" where
  "stop_locked s =
     s\<lparr>active := False, waitables := [],
       stops := AtRunners (active s) (waitables s) # stops s\<rparr>"

text \<open>Lines 154 to 160: the \<^verbatim>\<open>do ... while\<close> over \<^verbatim>\<open>pending\<close>, guarded by
  \<^verbatim>\<open>!pending.empty()\<close>; each round calls \<^verbatim>\<open>dispatch(error)\<close> on the front and pops it.\<close>

fun drain :: "waitable list \<Rightarrow> (waitable \<times> error option) list \<Rightarrow> (waitable \<times> error option) list" where
  "drain [] log = log"
| "drain (w # pending) log = drain pending (log @ [(w, Some ExecutorStopped)])"

text \<open>The rest of \<^verbatim>\<open>stop\<close>, from where the call stands: line 149 with
  \<^verbatim>\<open>pollFunc_.stop()\<close>, line 151 with \<^verbatim>\<open>dispatchFunc_.stop()\<close>, lines 154 to 160.
  \<open>None\<close> means that the call is blocked in a runner's \<open>stop\<close>.\<close>

fun stop_step :: "stop_frame \<Rightarrow> state \<Rightarrow> state option" where
  "stop_step (AtRunners wasActive pending) s =
     (if wasActive
      then (case stop_runner (pollFunc s) of
              None \<Rightarrow> None
            | Some r \<Rightarrow> Some (s\<lparr>pollFunc := r,
                 stops := AtDispatchStop pending # remove1 (AtRunners wasActive pending) (stops s)\<rparr>))
      else Some (s\<lparr>stops := AtDrain pending # remove1 (AtRunners wasActive pending) (stops s)\<rparr>))"
| "stop_step (AtDispatchStop pending) s =
     (case stop_runner (dispatchFunc s) of
        None \<Rightarrow> None
      | Some r \<Rightarrow> Some (s\<lparr>dispatchFunc := r,
           stops := AtDrain pending # remove1 (AtDispatchStop pending) (stops s)\<rparr>))"
| "stop_step (AtDrain pending) s =
     Some (s\<lparr>dispatched := drain pending (dispatched s),
             stops := remove1 (AtDrain pending) (stops s)\<rparr>)"

text \<open>A whole call of \<^verbatim>\<open>stop\<close> with nothing running in between: lines 138 to 147,
  then the two runners if the object was active, then the loop over \<^verbatim>\<open>pending\<close>. With
  nothing else running, a runner that still has work keeps the call blocked
  (\<open>None\<close>).\<close>

definition stop :: "state \<Rightarrow> state option" where
  "stop s =
     (let f = AtRunners (active s) (waitables s) in
      case stop_step f (stop_locked s) of
        None \<Rightarrow> None
      | Some s1 \<Rightarrow>
          if active s
          then (case stop_step (AtDispatchStop (waitables s)) s1 of
                  None \<Rightarrow> None
                | Some s2 \<Rightarrow> stop_step (AtDrain (waitables s)) s2)
          else stop_step (AtDrain (waitables s)) s1)"

text \<open>Lines 64 to 67: the destructor calls \<^verbatim>\<open>stop()\<close>.\<close>

definition destructor :: "state \<Rightarrow> state option" where
  "destructor s = stop (s\<lparr>destructing := True\<rparr>)"

section \<open>Runs\<close>

text \<open>
  The steps a run is made of. \<open>Watch w\<close>: a thread calls \<^verbatim>\<open>watch\<close> with an operation
  that no earlier call was given (the \<^verbatim>\<open>unique_ptr\<close> is moved in) and runs lines 74
  to 88. \<open>WatchSubmit\<close>: one of the calls counted by \<open>submitting\<close> runs lines 90 to
  92. \<open>PollTop\<close>, \<open>PollBody\<close>: an instance of the lambda runs one piece of its loop.
  \<open>Dispatch\<close>: the dispatch runner runs one of its work items. \<open>Stop\<close>: a thread
  calls \<^verbatim>\<open>stop\<close> and runs lines 138 to 147; \<open>StopStep\<close>: a call of \<^verbatim>\<open>stop\<close> goes on.
  \<open>Destroy\<close>: the destructor starts; this needs that no call is in progress and that
  no lambda is alive, since each lambda holds \<^verbatim>\<open>keep\<close>; afterwards nobody can call
  \<^verbatim>\<open>watch\<close> or \<^verbatim>\<open>stop\<close>.
\<close>

datatype event =
    Watch waitable
  | WatchSubmit bool
  | PollTop
  | PollBody waitable outcome bool
  | Dispatch waitable "error option"
  | Stop
  | StopStep stop_frame
  | Destroy

fun step :: "event \<Rightarrow> state \<Rightarrow> state option" where
  "step (Watch w) s =
     (if destructing s \<or> w \<in> fst ` set (watched s) then None
      else Some (watch_locked w s))"
| "step (WatchSubmit late) s =
     (if submitting s = 0 then None else Some (snd (watch_submit late s)))"
| "step PollTop s =
     (if AtTop \<in> set (tasks (pollFunc s)) then Some (poll_top s) else None)"
| "step (PollBody w out late) s =
     (if Holding w \<in> set (tasks (pollFunc s)) then Some (poll_body w out late s) else None)"
| "step (Dispatch w err) s =
     (if (w, err) \<in> set (tasks (dispatchFunc s)) then Some (dispatch_run (w, err) s) else None)"
| "step Stop s = (if destructing s then None else Some (stop_locked s))"
| "step (StopStep f) s = (if f \<in> set (stops s) then stop_step f s else None)"
| "step Destroy s =
     (if destructing s \<or> submitting s \<noteq> 0 \<or> stops s \<noteq> [] \<or> tasks (pollFunc s) \<noteq> []
      then None
      else Some (stop_locked (s\<lparr>destructing := True\<rparr>)))"

fun exec :: "event list \<Rightarrow> state \<Rightarrow> state option" where
  "exec [] s = Some s"
| "exec (e # es) s = (case step e s of None \<Rightarrow> None | Some s' \<Rightarrow> exec es s')"

section \<open>Where the operations are\<close>

text \<open>The operations that the alive poll loops have popped and not yet pushed back or
  handed over.\<close>

fun held :: "poller list \<Rightarrow> waitable list" where
  "held [] = []"
| "held (AtTop # ps) = held ps"
| "held (Holding w # ps) = w # held ps"

text \<open>The operations in the \<^verbatim>\<open>pending\<close> queues of the calls of \<^verbatim>\<open>stop\<close> in progress.\<close>

definition pendings :: "stop_frame list \<Rightarrow> waitable list" where
  "pendings fs = concat (map frame_pending fs)"

text \<open>The operations the object still has to complete: those in \<^verbatim>\<open>waitables_\<close>, in the
  hands of a poll loop, in a work item of the dispatch runner, or in a \<^verbatim>\<open>pending\<close>
  queue.\<close>

definition custody :: "state \<Rightarrow> waitable list" where
  "custody s = waitables s @ held (tasks (pollFunc s)) @ map fst (tasks (dispatchFunc s))
                 @ pendings (stops s)"

text \<open>The operations that \<^verbatim>\<open>watch\<close> has pushed, and those it has returned on at line 78.\<close>

definition accepted :: "state \<Rightarrow> waitable list" where
  "accepted s = map fst (filter snd (watched s))"

definition discarded :: "state \<Rightarrow> waitable list" where
  "discarded s = map fst (filter (\<lambda>x. \<not> snd x) (watched s))"

text \<open>How often \<^verbatim>\<open>dispatch\<close> has been called on \<open>v\<close>.\<close>

definition completions :: "state \<Rightarrow> waitable \<Rightarrow> nat" where
  "completions s v = count_list (map fst (dispatched s)) v"

text \<open>In how many places \<open>v\<close> is: still to be completed, completed, or lost in a
  work item that the dispatch runner discarded.\<close>

definition holders :: "state \<Rightarrow> waitable \<Rightarrow> nat" where
  "holders s v = count_list (custody s) v + completions s v
                   + count_list (map fst (dropped (dispatchFunc s))) v"

text \<open>Every operation is in as many places as \<^verbatim>\<open>watch\<close> has pushed it, and no operation
  was given to \<^verbatim>\<open>watch\<close> twice.\<close>

definition conserved :: "state \<Rightarrow> bool" where
  "conserved s \<longleftrightarrow>
     (\<forall>v. holders s v = count_list (accepted s) v) \<and> distinct (map fst (watched s))"

section \<open>Invariants of the runs\<close>

text \<open>At most one poll loop is alive or about to be submitted, and then the flag is set.\<close>

definition single_poller :: "state \<Rightarrow> bool" where
  "single_poller s \<longleftrightarrow>
     submitting s + length (tasks (pollFunc s)) \<le> (if isPollerRunning s then 1 else 0)"

text \<open>The call of \<^verbatim>\<open>stop\<close> that found the object active and has not yet stopped both
  runners.\<close>

fun stopping_runners :: "stop_frame \<Rightarrow> bool" where
  "stopping_runners (AtRunners wasActive pending) = wasActive"
| "stopping_runners (AtDispatchStop pending) = True"
| "stopping_runners (AtDrain pending) = False"

fun at_dispatch_stop :: "stop_frame \<Rightarrow> bool" where
  "at_dispatch_stop (AtDispatchStop pending) = True"
| "at_dispatch_stop f = False"

text \<open>How the flags, the runners and the calls in progress hang together.\<close>

definition lifecycle :: "state \<Rightarrow> bool" where
  "lifecycle s \<longleftrightarrow>
     (stopped (pollFunc s) \<longrightarrow> held (tasks (pollFunc s)) = []) \<and>
     (stopped (dispatchFunc s) \<longrightarrow> stopped (pollFunc s) \<and> tasks (dispatchFunc s) = []) \<and>
     (\<not> active s \<longrightarrow> stopped (dispatchFunc s) \<or> (\<exists>f \<in> set (stops s). stopping_runners f)) \<and>
     (\<forall>f \<in> set (stops s). at_dispatch_stop f \<longrightarrow> stopped (pollFunc s)) \<and>
     (destructing s \<longrightarrow> waitables s = [] \<and> tasks (pollFunc s) = [] \<and> submitting s = 0) \<and>
     dropped (dispatchFunc s) = [] \<and>
     (stops s \<noteq> [] \<or> stopped (pollFunc s) \<or> destructing s \<longrightarrow> \<not> active s) \<and>
     (\<not> owned s \<longrightarrow> tasks (pollFunc s) = [])"

text \<open>The answers of \<^verbatim>\<open>wait\<close> on \<open>w\<close> other than \<^verbatim>\<open>false\<close>, in the order of the calls.\<close>

definition answers :: "state \<Rightarrow> waitable \<Rightarrow> outcome list" where
  "answers s w = filter (\<lambda>out. out \<noteq> NotReady) (map snd (filter (\<lambda>p. fst p = w) (waited s)))"

text \<open>What stands behind an argument of \<^verbatim>\<open>dispatch\<close>: \<^verbatim>\<open>nullptr\<close> after the one \<^verbatim>\<open>wait\<close>
  that returned true, the exception of the one \<^verbatim>\<open>wait\<close> that threw, the stop error on an
  operation that no \<^verbatim>\<open>wait\<close> has found ready, given by an object that is not active.\<close>

fun explained :: "state \<Rightarrow> waitable \<times> error option \<Rightarrow> bool" where
  "explained s (w, None) = (answers s w = [Ready])"
| "explained s (w, Some (WaitError x)) = (answers s w = [Threw x])"
| "explained s (w, Some ExecutorStopped) = (answers s w = [] \<and> \<not> active s)"

definition provenance :: "state \<Rightarrow> bool" where
  "provenance s \<longleftrightarrow>
     (\<forall>t \<in> set (tasks (dispatchFunc s)). snd t \<noteq> Some ExecutorStopped \<and> explained s t) \<and>
     (\<forall>t \<in> set (dispatched s). explained s t) \<and>
     (\<forall>w \<in> set (waitables s @ held (tasks (pollFunc s)) @ pendings (stops s)). answers s w = []) \<and>
     (\<forall>p \<in> set (waited s). fst p \<in> fst ` set (watched s))"

text \<open>At most one call of \<^verbatim>\<open>stop\<close> is about to stop the runners, and none once the
  dispatch runner is stopped or while the object is active.\<close>

definition one_stopper :: "state \<Rightarrow> bool" where
  "one_stopper s \<longleftrightarrow>
     length (filter stopping_runners (stops s))
       \<le> (if active s \<or> stopped (dispatchFunc s) then 0 else 1)"

text \<open>All of it together.\<close>

definition invariant :: "state \<Rightarrow> bool" where
  "invariant s \<longleftrightarrow>
     conserved s \<and> single_poller s \<and> lifecycle s \<and> provenance s \<and> one_stopper s"

section \<open>The order of the checks\<close>

text \<open>\<open>b\<close> stands before \<open>a\<close> in the queue.\<close>

definition ahead :: "waitable \<Rightarrow> waitable \<Rightarrow> waitable list \<Rightarrow> bool" where
  "ahead a b ws \<longleftrightarrow> a \<in> set ws \<and> b \<in> set (takeWhile (\<lambda>x. x \<noteq> a) ws)"

text \<open>The operations on which \<^verbatim>\<open>wait\<close> has been called after the first \<open>n\<close> calls.\<close>

definition checked_since :: "nat \<Rightarrow> state \<Rightarrow> waitable set" where
  "checked_since n s = fst ` set (drop n (waited s))"

text \<open>What is known of an operation \<open>b\<close> that stood before \<open>a\<close> when \<open>n\<close> calls of \<^verbatim>\<open>wait\<close>
  had been made: it has been checked since, or \<open>a\<close> has left the queue for good, or
  \<open>b\<close> still stands before \<open>a\<close>, or \<open>b\<close> is in the hands of the poll loop while \<open>a\<close> is
  queued.\<close>

definition turn :: "waitable \<Rightarrow> waitable \<Rightarrow> nat \<Rightarrow> state \<Rightarrow> bool" where
  "turn a b n s \<longleftrightarrow>
     n \<le> length (waited s) \<and> a \<in> fst ` set (watched s) \<and>
     (b \<in> checked_since n s \<or>
      (a \<notin> set (waitables s) \<and> a \<notin> set (held (tasks (pollFunc s)))) \<or>
      ahead a b (waitables s) \<or>
      (a \<in> set (waitables s) \<and> b \<in> set (held (tasks (pollFunc s)))))"

section \<open>Winding down\<close>

text \<open>A bound on the steps that are left when no new call of \<^verbatim>\<open>watch\<close> is made, every
  \<^verbatim>\<open>wait\<close> returns false, \<^verbatim>\<open>stop\<close> is called and the object is destroyed.\<close>

fun poller_weight :: "poller \<Rightarrow> nat" where
  "poller_weight AtTop = 1"
| "poller_weight (Holding w) = 2"

fun frame_weight :: "stop_frame \<Rightarrow> nat" where
  "frame_weight (AtRunners wasActive pending) = 3"
| "frame_weight (AtDispatchStop pending) = 2"
| "frame_weight (AtDrain pending) = 1"

definition remaining :: "state \<Rightarrow> nat" where
  "remaining s =
     (if destructing s then 0 else 4) + (if active s then 4 else 0) + 4 * submitting s +
     sum_list (map poller_weight (tasks (pollFunc s))) + length (tasks (dispatchFunc s)) +
     sum_list (map frame_weight (stops s))"

section \<open>A run in which a poll is in flight while stop is called\<close>

text \<open>One operation is watched and popped by the poll loop; \<^verbatim>\<open>stop\<close> takes its snapshot
  of the empty queue; the \<^verbatim>\<open>wait\<close> in flight returns false and the operation is pushed
  back; the loop ends at its next round; \<^verbatim>\<open>stop\<close> stops the runners and returns.\<close>

definition in_flight_run :: "event list" where
  "in_flight_run =
     [Watch 1, WatchSubmit False, PollTop, Stop, PollBody 1 NotReady False, PollTop,
      StopStep (AtRunners True []), StopStep (AtDispatchStop []), StopStep (AtDrain [])]"

section \<open>What each piece of code changes\<close>

lemma submit_fields [simp]:
  "started (submit late t r) = started r"
  "stopped (submit late t r) = stopped r"
  "tasks (submit late t r) = (if stopped r \<and> \<not> late then tasks r else tasks r @ [t])"
  "dropped (submit late t r) = (if stopped r \<and> \<not> late then dropped r @ [t] else dropped r)"
  by (simp_all add: submit_def)

lemma finish_fields [simp]:
  "started (finish t r) = started r"
  "stopped (finish t r) = stopped r"
  "tasks (finish t r) = remove1 t (tasks r)"
  "dropped (finish t r) = dropped r"
  by (simp_all add: finish_def)

lemma resume_fields [simp]:
  "started (resume t t' r) = started r"
  "stopped (resume t t' r) = stopped r"
  "tasks (resume t t' r) = t' # remove1 t (tasks r)"
  "dropped (resume t t' r) = dropped r"
  by (simp_all add: resume_def)

lemma stop_runner_Some:
  "stop_runner r = Some r' \<longleftrightarrow> tasks r = [] \<and> r' = r\<lparr>stopped := True\<rparr>"
  by (auto simp: stop_runner_def)

lemma watch_locked_fields [simp]:
  "owned (watch_locked w s) = owned s"
  "active (watch_locked w s) = active s"
  "isPollerRunning (watch_locked w s) = (isPollerRunning s \<or> active s)"
  "waitables (watch_locked w s) = (if active s then waitables s @ [w] else waitables s)"
  "pollFunc (watch_locked w s) = pollFunc s"
  "dispatchFunc (watch_locked w s) = dispatchFunc s"
  "submitting (watch_locked w s) =
     (if active s \<and> \<not> isPollerRunning s then Suc (submitting s) else submitting s)"
  "stops (watch_locked w s) = stops s"
  "destructing (watch_locked w s) = destructing s"
  "watched (watch_locked w s) = watched s @ [(w, active s)]"
  "waited (watch_locked w s) = waited s"
  "dispatched (watch_locked w s) = dispatched s"
  by (simp_all add: watch_locked_def Let_def)

lemma watch_submit_fields [simp]:
  "fst (watch_submit late s) = (if owned s then None else Some BadWeakPtr)"
  "owned (snd (watch_submit late s)) = owned s"
  "active (snd (watch_submit late s)) = active s"
  "isPollerRunning (snd (watch_submit late s)) = isPollerRunning s"
  "waitables (snd (watch_submit late s)) = waitables s"
  "pollFunc (snd (watch_submit late s)) =
     (if owned s then submit late AtTop (pollFunc s) else pollFunc s)"
  "dispatchFunc (snd (watch_submit late s)) = dispatchFunc s"
  "submitting (snd (watch_submit late s)) = submitting s - 1"
  "stops (snd (watch_submit late s)) = stops s"
  "destructing (snd (watch_submit late s)) = destructing s"
  "watched (snd (watch_submit late s)) = watched s"
  "waited (snd (watch_submit late s)) = waited s"
  "dispatched (snd (watch_submit late s)) = dispatched s"
  by (simp_all add: watch_submit_def)

lemma poll_top_fields [simp]:
  "owned (poll_top s) = owned s"
  "active (poll_top s) = active s"
  "isPollerRunning (poll_top s) = (isPollerRunning s \<and> waitables s \<noteq> [] \<and> active s)"
  "waitables (poll_top s) = (if active s then tl (waitables s) else waitables s)"
  "pollFunc (poll_top s) =
     (if waitables s = [] \<or> \<not> active s then finish AtTop (pollFunc s)
      else resume AtTop (Holding (hd (waitables s))) (pollFunc s))"
  "dispatchFunc (poll_top s) = dispatchFunc s"
  "submitting (poll_top s) = submitting s"
  "stops (poll_top s) = stops s"
  "destructing (poll_top s) = destructing s"
  "watched (poll_top s) = watched s"
  "waited (poll_top s) = waited s"
  "dispatched (poll_top s) = dispatched s"
  by (simp_all add: poll_top_def split: list.splits)

lemma poll_body_fields [simp]:
  "owned (poll_body w out late s) = owned s"
  "active (poll_body w out late s) = active s"
  "isPollerRunning (poll_body w out late s) = isPollerRunning s"
  "waitables (poll_body w out late s) =
     (if out = NotReady then waitables s @ [w] else waitables s)"
  "pollFunc (poll_body w out late s) = resume (Holding w) AtTop (pollFunc s)"
  "dispatchFunc (poll_body w out late s) =
     (if out = NotReady then dispatchFunc s
      else submit late (w, snd (poll_wait out)) (dispatchFunc s))"
  "submitting (poll_body w out late s) = submitting s"
  "stops (poll_body w out late s) = stops s"
  "destructing (poll_body w out late s) = destructing s"
  "watched (poll_body w out late s) = watched s"
  "waited (poll_body w out late s) = waited s @ [(w, out)]"
  "dispatched (poll_body w out late s) = dispatched s"
  by (cases out; simp add: poll_body_def Let_def)+

lemma dispatch_run_fields [simp]:
  "owned (dispatch_run t s) = owned s"
  "active (dispatch_run t s) = active s"
  "isPollerRunning (dispatch_run t s) = isPollerRunning s"
  "waitables (dispatch_run t s) = waitables s"
  "pollFunc (dispatch_run t s) = pollFunc s"
  "dispatchFunc (dispatch_run t s) = finish t (dispatchFunc s)"
  "submitting (dispatch_run t s) = submitting s"
  "stops (dispatch_run t s) = stops s"
  "destructing (dispatch_run t s) = destructing s"
  "watched (dispatch_run t s) = watched s"
  "waited (dispatch_run t s) = waited s"
  "dispatched (dispatch_run t s) = dispatched s @ [t]"
  by (simp_all add: dispatch_run_def)

lemma stop_locked_fields [simp]:
  "owned (stop_locked s) = owned s"
  "active (stop_locked s) = False"
  "isPollerRunning (stop_locked s) = isPollerRunning s"
  "waitables (stop_locked s) = []"
  "pollFunc (stop_locked s) = pollFunc s"
  "dispatchFunc (stop_locked s) = dispatchFunc s"
  "submitting (stop_locked s) = submitting s"
  "stops (stop_locked s) = AtRunners (active s) (waitables s) # stops s"
  "destructing (stop_locked s) = destructing s"
  "watched (stop_locked s) = watched s"
  "waited (stop_locked s) = waited s"
  "dispatched (stop_locked s) = dispatched s"
  by (simp_all add: stop_locked_def)

lemma drain_eq: "drain pending log = log @ map (\<lambda>w. (w, Some ExecutorStopped)) pending"
  by (induction pending arbitrary: log) simp_all

text \<open>The three pieces of the rest of \<^verbatim>\<open>stop\<close>, each as the change it makes.\<close>

lemma stop_step_AtRunners_True:
  "stop_step (AtRunners True pending) s = Some s' \<longleftrightarrow>
     tasks (pollFunc s) = [] \<and>
     s' = s\<lparr>pollFunc := (pollFunc s)\<lparr>stopped := True\<rparr>,
             stops := AtDispatchStop pending # remove1 (AtRunners True pending) (stops s)\<rparr>"
  by (auto simp: stop_runner_def)

lemma stop_step_AtRunners_False:
  "stop_step (AtRunners False pending) s = Some s' \<longleftrightarrow>
     s' = s\<lparr>stops := AtDrain pending # remove1 (AtRunners False pending) (stops s)\<rparr>"
  by auto

lemma stop_step_AtDispatchStop:
  "stop_step (AtDispatchStop pending) s = Some s' \<longleftrightarrow>
     tasks (dispatchFunc s) = [] \<and>
     s' = s\<lparr>dispatchFunc := (dispatchFunc s)\<lparr>stopped := True\<rparr>,
             stops := AtDrain pending # remove1 (AtDispatchStop pending) (stops s)\<rparr>"
  by (auto simp: stop_runner_def)

lemma stop_step_AtDrain:
  "stop_step (AtDrain pending) s = Some s' \<longleftrightarrow>
     s' = s\<lparr>dispatched := dispatched s @ map (\<lambda>w. (w, Some ExecutorStopped)) pending,
             stops := remove1 (AtDrain pending) (stops s)\<rparr>"
  by (auto simp: drain_eq)

lemmas stop_step_Some =
  stop_step_AtRunners_True stop_step_AtRunners_False stop_step_AtDispatchStop stop_step_AtDrain

declare stop_step.simps [simp del]

lemma stop_step_elim:
  assumes "stop_step f s = Some s'"
  obtains
    (poll) p where "f = AtRunners True p" "tasks (pollFunc s) = []"
      "s' = s\<lparr>pollFunc := (pollFunc s)\<lparr>stopped := True\<rparr>,
               stops := AtDispatchStop p # remove1 f (stops s)\<rparr>"
  | (skip) p where "f = AtRunners False p"
      "s' = s\<lparr>stops := AtDrain p # remove1 f (stops s)\<rparr>"
  | (disp) p where "f = AtDispatchStop p" "tasks (dispatchFunc s) = []"
      "s' = s\<lparr>dispatchFunc := (dispatchFunc s)\<lparr>stopped := True\<rparr>,
               stops := AtDrain p # remove1 f (stops s)\<rparr>"
  | (drain) p where "f = AtDrain p"
      "s' = s\<lparr>dispatched := dispatched s @ map (\<lambda>w. (w, Some ExecutorStopped)) p,
               stops := remove1 f (stops s)\<rparr>"
proof (cases f)
  case (AtRunners a p)
  with assms poll skip show ?thesis
    by (cases a) (simp_all add: stop_step_Some)
next
  case (AtDispatchStop p)
  with assms disp show ?thesis
    by (simp add: stop_step_Some)
next
  case (AtDrain p)
  with assms drain show ?thesis
    by (simp add: stop_step_Some)
qed

lemma step_StopStep:
  "step (StopStep f) s = Some s' \<longleftrightarrow> f \<in> set (stops s) \<and> stop_step f s = Some s'"
  by simp

subsection \<open>Lists\<close>

lemma held_append [simp]: "held (ps @ qs) = held ps @ held qs"
  by (induction ps rule: held.induct) simp_all

lemma held_remove1_AtTop [simp]: "held (remove1 AtTop ps) = held ps"
  by (induction ps rule: held.induct) simp_all

lemma Holding_in_held: "Holding w \<in> set ps \<longleftrightarrow> w \<in> set (held ps)"
  by (induction ps rule: held.induct) auto

lemma pendings_Cons [simp]: "pendings (f # fs) = frame_pending f @ pendings fs"
  by (simp add: pendings_def)

lemma pendings_Nil [simp]: "pendings [] = []"
  by (simp add: pendings_def)

lemma bex_remove1: "\<exists>g\<in>set fs. P g \<Longrightarrow> \<not> P f \<Longrightarrow> \<exists>g\<in>set (remove1 f fs). P g"
  by (metis in_set_remove1)

lemma ball_remove1: "\<forall>g\<in>set fs. P g \<Longrightarrow> \<forall>g\<in>set (remove1 f fs). P g"
  by (meson notin_set_remove1)

section \<open>No operation is lost or doubled\<close>

lemma count_held_remove1:
  "Holding w \<in> set ps \<Longrightarrow>
   count_list (held (remove1 (Holding w) ps)) v + (if v = w then 1 else 0) = count_list (held ps) v"
  by (induction ps rule: held.induct) auto

lemma count_pendings_remove1:
  "f \<in> set fs \<Longrightarrow>
   count_list (pendings (remove1 f fs)) v + count_list (frame_pending f) v = count_list (pendings fs) v"
  by (induction fs) auto

lemma count_fst_remove1:
  "(a, b) \<in> set ts \<Longrightarrow>
   count_list (map fst (remove1 (a, b) ts)) v + (if v = a then 1 else 0) = count_list (map fst ts) v"
proof (induction ts)
  case Nil
  then show ?case by simp
next
  case (Cons t ts)
  show ?case
  proof (cases "t = (a, b)")
    case True
    then show ?thesis by simp
  next
    case False
    with Cons.prems have "(a, b) \<in> set ts" by simp
    from Cons.IH [OF this] False show ?thesis by simp
  qed
qed

lemma map_fst_stopped [simp]: "map (fst \<circ> (\<lambda>w. (w, e))) pending = pending"
  by (simp add: comp_def)

lemma conservedI:
  assumes "conserved s"
    and "\<And>v. holders s' v + count_list (accepted s) v = holders s v + count_list (accepted s') v"
    and "watched s' = watched s \<or> (\<exists>w b. w \<notin> fst ` set (watched s) \<and> watched s' = watched s @ [(w, b)])"
  shows "conserved s'"
proof -
  have "holders s' v = count_list (accepted s') v" for v
  proof -
    from assms(1) have "holders s v = count_list (accepted s) v"
      by (simp add: conserved_def)
    with assms(2) [of v] show ?thesis by simp
  qed
  moreover from assms(1,3) have "distinct (map fst (watched s'))"
    by (auto simp: conserved_def)
  ultimately show ?thesis by (simp add: conserved_def)
qed

lemma conserved_init: "conserved (PollingExecutor sh)"
  by (simp add: conserved_def holders_def completions_def custody_def accepted_def
      PollingExecutor_def new_runner_def start_def)

lemma conserved_step:
  assumes C: "conserved s" and st: "step e s = Some s'"
  shows "conserved s'"
proof (cases e)
  case (Watch w)
  with st have s': "s' = watch_locked w s" and fresh: "w \<notin> fst ` set (watched s)"
    by (auto split: if_splits)
  show ?thesis
    by (rule conservedI [OF C])
      (use fresh in \<open>auto simp: s' holders_def completions_def custody_def accepted_def\<close>)
next
  case (WatchSubmit l)
  with st have s': "s' = snd (watch_submit l s)"
    by (auto split: if_splits)
  show ?thesis
    by (rule conservedI [OF C])
      (auto simp: s' holders_def completions_def custody_def accepted_def)
next
  case PollTop
  with st have s': "s' = poll_top s"
    by (auto split: if_splits)
  show ?thesis
    by (rule conservedI [OF C]; cases "waitables s")
      (auto simp: s' holders_def completions_def custody_def accepted_def)
next
  case (PollBody w out l)
  with st have h: "Holding w \<in> set (tasks (pollFunc s))" and s': "s' = poll_body w out l s"
    by (auto split: if_splits)
  show ?thesis
  proof (rule conservedI [OF C])
    show "holders s' v + count_list (accepted s) v = holders s v + count_list (accepted s') v" for v
      using count_held_remove1 [OF h, of v]
      by (auto simp: s' holders_def completions_def custody_def accepted_def split: if_splits)
  qed (simp add: s')
next
  case (Dispatch w err)
  with st have h: "(w, err) \<in> set (tasks (dispatchFunc s))" and s': "s' = dispatch_run (w, err) s"
    by (auto split: if_splits)
  show ?thesis
  proof (rule conservedI [OF C])
    show "holders s' v + count_list (accepted s) v = holders s v + count_list (accepted s') v" for v
      using count_fst_remove1 [OF h, of v]
      by (auto simp: s' holders_def completions_def custody_def accepted_def split: if_splits)
  qed (simp add: s')
next
  case Stop
  with st have s': "s' = stop_locked s"
    by (auto split: if_splits)
  show ?thesis
    by (rule conservedI [OF C])
      (auto simp: s' holders_def completions_def custody_def accepted_def)
next
  case (StopStep f)
  with st have h: "f \<in> set (stops s)" and ss: "stop_step f s = Some s'"
    by (auto split: if_splits)
  show ?thesis
  proof (rule conservedI [OF C])
    show "holders s' v + count_list (accepted s) v = holders s v + count_list (accepted s') v" for v
    proof (cases f)
      case (AtRunners a p)
      with count_pendings_remove1 [OF h, of v] ss show ?thesis
        by (cases a)
          (auto simp: stop_step_Some holders_def completions_def custody_def accepted_def)
    next
      case (AtDispatchStop p)
      with count_pendings_remove1 [OF h, of v] ss show ?thesis
        by (auto simp: stop_step_Some holders_def completions_def custody_def accepted_def)
    next
      case (AtDrain p)
      with count_pendings_remove1 [OF h, of v] ss show ?thesis
        by (auto simp: stop_step_Some holders_def completions_def custody_def accepted_def)
    qed
    show "watched s' = watched s \<or>
        (\<exists>w b. w \<notin> fst ` set (watched s) \<and> watched s' = watched s @ [(w, b)])"
    proof (cases f)
      case (AtRunners a p)
      with ss show ?thesis
        by (cases a) (auto simp: stop_step_Some)
    qed (use ss in \<open>auto simp: stop_step_Some\<close>)
  qed
next
  case Destroy
  with st have s': "s' = stop_locked (s\<lparr>destructing := True\<rparr>)"
    by (auto split: if_splits)
  show ?thesis
    by (rule conservedI [OF C])
      (auto simp: s' holders_def completions_def custody_def accepted_def)
qed

section \<open>One poll loop\<close>

lemma single_poller_init: "single_poller (PollingExecutor sh)"
  by (simp add: single_poller_def PollingExecutor_def new_runner_def start_def)

lemma single_poller_step:
  assumes S: "single_poller s" and st: "step e s = Some s'"
  shows "single_poller s'"
proof (cases e)
  case (Watch w)
  with assms show ?thesis
    by (auto simp: single_poller_def split: if_splits)
next
  case (WatchSubmit l)
  with assms show ?thesis
    by (cases "tasks (pollFunc s)") (auto simp: single_poller_def split: if_splits)
next
  case PollTop
  with st have a: "AtTop \<in> set (tasks (pollFunc s))" and s': "s' = poll_top s"
    by (auto split: if_splits)
  from a obtain n where n: "length (tasks (pollFunc s)) = Suc n"
    by (cases "tasks (pollFunc s)") auto
  with S have run: "isPollerRunning s" and sub: "submitting s = 0" and n0: "n = 0"
    by (auto simp: single_poller_def split: if_splits)
  from a n n0 have "length (remove1 AtTop (tasks (pollFunc s))) = 0"
    by (simp add: length_remove1)
  with a run sub n n0 show ?thesis
    by (simp add: s' single_poller_def)
next
  case (PollBody w out l)
  with st have a: "Holding w \<in> set (tasks (pollFunc s))" and s': "s' = poll_body w out l s"
    by (auto split: if_splits)
  from a obtain n where n: "length (tasks (pollFunc s)) = Suc n"
    by (cases "tasks (pollFunc s)") auto
  with a S show ?thesis
    by (simp add: s' single_poller_def length_remove1)
next
  case (Dispatch w err)
  with assms show ?thesis
    by (auto simp: single_poller_def split: if_splits)
next
  case Stop
  with assms show ?thesis
    by (auto simp: single_poller_def split: if_splits)
next
  case (StopStep f)
  with st have ss: "stop_step f s = Some s'"
    by (auto split: if_splits)
  show ?thesis
  proof (cases f)
    case (AtRunners a p)
    with ss S show ?thesis
      by (cases a) (auto simp: single_poller_def stop_step_Some)
  qed (use ss S in \<open>auto simp: single_poller_def stop_step_Some\<close>)
next
  case Destroy
  with assms show ?thesis
    by (auto simp: single_poller_def split: if_splits)
qed

section \<open>The life cycle\<close>

lemma lifecycle_init: "lifecycle (PollingExecutor sh)"
  by (simp add: lifecycle_def PollingExecutor_def new_runner_def start_def)

lemma lifecycle_stop_step1:
  assumes L: "lifecycle s" and st: "step (StopStep (AtRunners a p)) s = Some s'"
  shows "lifecycle s'"
proof -
  let ?f = "AtRunners a p"
  from st have mem: "?f \<in> set (stops s)" and ss: "stop_step ?f s = Some s'"
    by (auto split: if_splits)
  from mem L have na: "\<not> active s"
    by (auto simp: lifecycle_def)
  from L have d4: "\<forall>g\<in>set (remove1 ?f (stops s)). at_dispatch_stop g \<longrightarrow> stopped (pollFunc s)"
    by (intro ball_remove1) (simp add: lifecycle_def)
  show ?thesis
  proof (cases a)
    case True
    with ss have t: "tasks (pollFunc s) = []"
      and s': "s' = s\<lparr>pollFunc := (pollFunc s)\<lparr>stopped := True\<rparr>,
                   stops := AtDispatchStop p # remove1 ?f (stops s)\<rparr>"
      by (simp_all add: stop_step_Some)
    from L t na show ?thesis
      by (simp add: lifecycle_def s')
  next
    case False
    with ss have s': "s' = s\<lparr>stops := AtDrain p # remove1 ?f (stops s)\<rparr>"
      by (simp add: stop_step_Some)
    from L na have "stopped (dispatchFunc s) \<or> (\<exists>g\<in>set (stops s). stopping_runners g)"
      by (simp add: lifecycle_def)
    then have d3: "stopped (dispatchFunc s) \<or> (\<exists>g\<in>set (remove1 ?f (stops s)). stopping_runners g)"
      using False by (auto intro: bex_remove1)
    from L na d3 d4 show ?thesis
      by (simp add: lifecycle_def s')
  qed
qed

lemma lifecycle_stop_step2:
  assumes L: "lifecycle s" and st: "step (StopStep (AtDispatchStop p)) s = Some s'"
  shows "lifecycle s'"
proof -
  let ?f = "AtDispatchStop p"
  from st have mem: "?f \<in> set (stops s)" and ss: "stop_step ?f s = Some s'"
    by (auto split: if_splits)
  from mem L have na: "\<not> active s"
    by (auto simp: lifecycle_def)
  from L have "\<forall>g\<in>set (stops s). at_dispatch_stop g \<longrightarrow> stopped (pollFunc s)"
    by (simp add: lifecycle_def)
  from bspec [OF this mem] have sp: "stopped (pollFunc s)"
    by simp
  from ss have t: "tasks (dispatchFunc s) = []"
    and s': "s' = s\<lparr>dispatchFunc := (dispatchFunc s)\<lparr>stopped := True\<rparr>,
                 stops := AtDrain p # remove1 ?f (stops s)\<rparr>"
    by (simp_all add: stop_step_Some)
  from L t na sp show ?thesis
    by (simp add: lifecycle_def s')
qed

lemma lifecycle_stop_step3:
  assumes L: "lifecycle s" and st: "step (StopStep (AtDrain p)) s = Some s'"
  shows "lifecycle s'"
proof -
  let ?f = "AtDrain p"
  from st have mem: "?f \<in> set (stops s)" and ss: "stop_step ?f s = Some s'"
    by (auto split: if_splits)
  from mem L have na: "\<not> active s"
    by (auto simp: lifecycle_def)
  from ss have s': "s' = s\<lparr>dispatched := dispatched s @ map (\<lambda>w. (w, Some ExecutorStopped)) p,
                 stops := remove1 ?f (stops s)\<rparr>"
    by (simp add: stop_step_Some)
  from L have d4: "\<forall>g\<in>set (remove1 ?f (stops s)). at_dispatch_stop g \<longrightarrow> stopped (pollFunc s)"
    by (intro ball_remove1) (simp add: lifecycle_def)
  from L na have "stopped (dispatchFunc s) \<or> (\<exists>g\<in>set (stops s). stopping_runners g)"
    by (simp add: lifecycle_def)
  then have d3: "stopped (dispatchFunc s) \<or> (\<exists>g\<in>set (remove1 ?f (stops s)). stopping_runners g)"
    by (auto intro: bex_remove1)
  from L na d3 d4 show ?thesis
    by (simp add: lifecycle_def s')
qed

lemma lifecycle_watch:
  assumes L: "lifecycle s" and st: "step (Watch w) s = Some s'"
  shows "lifecycle s'"
proof -
  from st have s': "s' = watch_locked w s" and nd: "\<not> destructing s"
    by (auto split: if_splits)
  from L nd show ?thesis
    by (simp add: lifecycle_def s')
qed

lemma lifecycle_watch_submit:
  assumes L: "lifecycle s" and st: "step (WatchSubmit l) s = Some s'"
  shows "lifecycle s'"
proof -
  from st have s': "s' = snd (watch_submit l s)" and sub: "submitting s \<noteq> 0"
    by (auto split: if_splits)
  from L sub show ?thesis
    by (simp add: lifecycle_def s')
qed

lemma lifecycle_poll_top:
  assumes L: "lifecycle s" and st: "step PollTop s = Some s'"
  shows "lifecycle s'"
proof -
  from st have s': "s' = poll_top s" and a: "AtTop \<in> set (tasks (pollFunc s))"
    by (auto split: if_splits)
  from a have ne: "tasks (pollFunc s) \<noteq> []"
    by auto
  from L ne show ?thesis
    by (simp add: lifecycle_def s'; blast)
qed

lemma lifecycle_poll_body:
  assumes L: "lifecycle s" and st: "step (PollBody w out l) s = Some s'"
  shows "lifecycle s'"
proof -
  from st have s': "s' = poll_body w out l s" and a: "Holding w \<in> set (tasks (pollFunc s))"
    by (auto split: if_splits)
  from a have ne: "tasks (pollFunc s) \<noteq> []" and h: "held (tasks (pollFunc s)) \<noteq> []"
    by (auto simp: Holding_in_held)
  from L h have sp: "\<not> stopped (pollFunc s)" and sd: "\<not> stopped (dispatchFunc s)"
    by (auto simp: lifecycle_def)
  from L ne sp sd show ?thesis
    by (simp add: lifecycle_def s')
qed

lemma lifecycle_dispatch:
  assumes L: "lifecycle s" and st: "step (Dispatch w err) s = Some s'"
  shows "lifecycle s'"
proof -
  from st have s': "s' = dispatch_run (w, err) s" and a: "(w, err) \<in> set (tasks (dispatchFunc s))"
    by (auto split: if_splits)
  from a have ne: "tasks (dispatchFunc s) \<noteq> []"
    by auto
  with L have sd: "\<not> stopped (dispatchFunc s)"
    by (auto simp: lifecycle_def)
  from L ne sd show ?thesis
    by (simp add: lifecycle_def s')
qed

lemma lifecycle_stop:
  assumes L: "lifecycle s" and st: "step Stop s = Some s'"
  shows "lifecycle s'"
proof -
  from st have s': "s' = stop_locked s" and nd: "\<not> destructing s"
    by (auto split: if_splits)
  from L nd show ?thesis
    by (simp add: lifecycle_def s'; blast)
qed

lemma lifecycle_destroy:
  assumes L: "lifecycle s" and st: "step Destroy s = Some s'"
  shows "lifecycle s'"
proof -
  from st have s': "s' = stop_locked (s\<lparr>destructing := True\<rparr>)"
    and g: "submitting s = 0" "stops s = []" "tasks (pollFunc s) = []"
    by (auto split: if_splits)
  from L g show ?thesis
    by (simp add: lifecycle_def s'; blast)
qed

lemma lifecycle_step:
  assumes L: "lifecycle s" and st: "step e s = Some s'"
  shows "lifecycle s'"
proof (cases e)
  case (StopStep f)
  with assms show ?thesis
    by (cases f) (auto intro: lifecycle_stop_step1 lifecycle_stop_step2 lifecycle_stop_step3)
qed (use assms in \<open>auto intro: lifecycle_watch lifecycle_watch_submit lifecycle_poll_top
      lifecycle_poll_body lifecycle_dispatch lifecycle_stop lifecycle_destroy\<close>)

section \<open>Each operation is in one place\<close>

lemma count_filter_fst_le:
  "distinct (map fst xs) \<Longrightarrow> count_list (map fst (filter P xs)) v \<le> 1"
proof (induction xs)
  case Nil
  then show ?case by simp
next
  case (Cons x xs)
  show ?case
  proof (cases "P x \<and> fst x = v")
    case True
    with Cons.prems have "v \<notin> set (map fst (filter P xs))"
      by auto
    then have "count_list (map fst (filter P xs)) v = 0"
      by (rule count_notin)
    with True show ?thesis by simp
  next
    case False
    with Cons show ?thesis by auto
  qed
qed

lemma holders_le_1:
  assumes "conserved s"
  shows "holders s v \<le> 1"
proof -
  from assms have "holders s v = count_list (accepted s) v" and "distinct (map fst (watched s))"
    by (simp_all add: conserved_def)
  with count_filter_fst_le [of "watched s" snd v] show ?thesis
    by (simp add: accepted_def)
qed

lemma holders_accepted: "conserved s \<Longrightarrow> 0 < holders s v \<Longrightarrow> v \<in> set (accepted s)"
  by (metis conserved_def count_list_0_iff less_numeral_extra(3))

lemma accepted_watched: "v \<in> set (accepted s) \<Longrightarrow> v \<in> fst ` set (watched s)"
  by (auto simp: accepted_def)

text \<open>An operation in the hands of a poll loop is nowhere else.\<close>

lemma held_alone:
  assumes C: "conserved s" and h: "Holding w \<in> set (tasks (pollFunc s))"
  shows "w \<notin> set (waitables s)"
    and "w \<notin> set (held (remove1 (Holding w) (tasks (pollFunc s))))"
    and "w \<notin> fst ` set (tasks (dispatchFunc s))"
    and "w \<notin> set (pendings (stops s))"
    and "w \<notin> fst ` set (dispatched s)"
    and "w \<in> fst ` set (watched s)"
proof -
  from count_held_remove1 [OF h, of w]
  have c: "count_list (held (tasks (pollFunc s))) w
             = Suc (count_list (held (remove1 (Holding w) (tasks (pollFunc s)))) w)"
    by simp
  with holders_le_1 [OF C, of w]
  have z: "count_list (waitables s) w = 0"
    "count_list (held (remove1 (Holding w) (tasks (pollFunc s)))) w = 0"
    "count_list (map fst (tasks (dispatchFunc s))) w = 0"
    "count_list (pendings (stops s)) w = 0"
    "count_list (map fst (dispatched s)) w = 0"
    by (simp_all add: holders_def custody_def completions_def)
  from z(1) show "w \<notin> set (waitables s)"
    by (simp add: count_list_0_iff)
  from z(2) show "w \<notin> set (held (remove1 (Holding w) (tasks (pollFunc s))))"
    by (simp add: count_list_0_iff)
  from z(3) show "w \<notin> fst ` set (tasks (dispatchFunc s))"
    by (simp add: count_list_0_iff)
  from z(4) show "w \<notin> set (pendings (stops s))"
    by (simp add: count_list_0_iff)
  from z(5) show "w \<notin> fst ` set (dispatched s)"
    by (simp add: count_list_0_iff)
  from c have "0 < holders s w"
    by (simp add: holders_def custody_def)
  then show "w \<in> fst ` set (watched s)"
    by (intro accepted_watched holders_accepted [OF C])
qed

lemma held_remove1_subset: "set (held (remove1 p ps)) \<subseteq> set (held ps)"
  by (induction ps rule: held.induct) auto

lemma pendings_remove1_subset: "set (pendings (remove1 f fs)) \<subseteq> set (pendings fs)"
  by (induction fs) auto

lemma frame_pending_subset: "f \<in> set fs \<Longrightarrow> set (frame_pending f) \<subseteq> set (pendings fs)"
  by (induction fs) auto

section \<open>Where the arguments of dispatch come from\<close>

lemma answers_waited: "waited s' = waited s \<Longrightarrow> answers s' v = answers s v"
  by (simp add: answers_def)

lemma answers_fresh: "v \<notin> fst ` set (waited s) \<Longrightarrow> answers s v = []"
  by (force simp: answers_def filter_empty_conv)

lemma answers_poll_body:
  "answers (poll_body w out late s) v =
     (if v = w \<and> out \<noteq> NotReady then answers s v @ [out] else answers s v)"
  by (simp add: answers_def)

lemma explained_mono:
  "explained s t \<Longrightarrow> waited s' = waited s \<Longrightarrow> (\<not> active s \<longrightarrow> \<not> active s') \<Longrightarrow> explained s' t"
  by (cases "(s, t)" rule: explained.cases) (auto simp: answers_def)

lemma explained_other:
  "explained s t \<Longrightarrow> fst t \<noteq> w \<Longrightarrow> explained (poll_body w out late s) t"
  by (cases "(s, t)" rule: explained.cases) (auto simp: answers_poll_body)

lemma explained_answer:
  "answers s w = [] \<Longrightarrow> out \<noteq> NotReady \<Longrightarrow>
   explained (poll_body w out late s) (w, snd (poll_wait out)) \<and>
   snd (poll_wait out) \<noteq> Some ExecutorStopped"
  by (cases out) (simp_all add: answers_poll_body)

lemma provenance_init: "provenance (PollingExecutor sh)"
  by (simp add: provenance_def PollingExecutor_def new_runner_def start_def)

lemma provenanceD:
  assumes "provenance s"
  shows "\<And>t. t \<in> set (tasks (dispatchFunc s)) \<Longrightarrow> snd t \<noteq> Some ExecutorStopped \<and> explained s t"
    and "\<And>t. t \<in> set (dispatched s) \<Longrightarrow> explained s t"
    and "\<And>w. w \<in> set (waitables s) \<or> w \<in> set (held (tasks (pollFunc s))) \<or> w \<in> set (pendings (stops s))
           \<Longrightarrow> answers s w = []"
    and "\<And>p. p \<in> set (waited s) \<Longrightarrow> fst p \<in> fst ` set (watched s)"
  using assms by (auto simp: provenance_def)

lemma provenanceI:
  assumes "\<And>t. t \<in> set (tasks (dispatchFunc s)) \<Longrightarrow> snd t \<noteq> Some ExecutorStopped \<and> explained s t"
    and "\<And>t. t \<in> set (dispatched s) \<Longrightarrow> explained s t"
    and "\<And>w. w \<in> set (waitables s) \<or> w \<in> set (held (tasks (pollFunc s))) \<or> w \<in> set (pendings (stops s))
           \<Longrightarrow> answers s w = []"
    and "\<And>p. p \<in> set (waited s) \<Longrightarrow> fst p \<in> fst ` set (watched s)"
  shows "provenance s"
  using assms unfolding provenance_def by (intro conjI ballI) auto

text \<open>A step that calls no \<^verbatim>\<open>wait\<close>: operations move between the queue, the poll loops
  and the stop calls, or come fresh from \<^verbatim>\<open>watch\<close>; a call of \<^verbatim>\<open>dispatch\<close> is a work item
  of the dispatch runner, or is made by \<^verbatim>\<open>stop\<close> on an operation of its snapshot.\<close>

lemma provenance_quiet:
  assumes P: "provenance s"
    and w: "waited s' = waited s" and a: "\<not> active s \<longrightarrow> \<not> active s'"
    and t: "set (tasks (dispatchFunc s')) \<subseteq> set (tasks (dispatchFunc s))"
    and d: "\<And>t. t \<in> set (dispatched s') \<Longrightarrow>
              t \<in> set (dispatched s) \<or> t \<in> set (tasks (dispatchFunc s)) \<or>
              (snd t = Some ExecutorStopped \<and> fst t \<in> set (pendings (stops s)) \<and> \<not> active s')"
    and c: "\<And>v. v \<in> set (waitables s') \<or> v \<in> set (held (tasks (pollFunc s'))) \<or>
                 v \<in> set (pendings (stops s')) \<Longrightarrow>
              v \<in> set (waitables s) \<or> v \<in> set (held (tasks (pollFunc s))) \<or>
              v \<in> set (pendings (stops s)) \<or> v \<notin> fst ` set (watched s)"
    and x: "set (watched s) \<subseteq> set (watched s')"
  shows "provenance s'"
proof (rule provenanceI)
  fix t assume "t \<in> set (tasks (dispatchFunc s'))"
  with t have "t \<in> set (tasks (dispatchFunc s))" by auto
  from provenanceD(1) [OF P this] w a
  show "snd t \<noteq> Some ExecutorStopped \<and> explained s' t"
    by (auto intro: explained_mono)
next
  fix t assume "t \<in> set (dispatched s')"
  from d [OF this] consider "t \<in> set (dispatched s)" | "t \<in> set (tasks (dispatchFunc s))"
    | "snd t = Some ExecutorStopped" "fst t \<in> set (pendings (stops s))" "\<not> active s'"
    by blast
  then show "explained s' t"
  proof cases
    case 1
    from provenanceD(2) [OF P this] w a show ?thesis
      by (auto intro: explained_mono)
  next
    case 2
    from provenanceD(1) [OF P this] w a show ?thesis
      by (auto intro: explained_mono)
  next
    case 3
    from provenanceD(3) [OF P, of "fst t"] 3(2) have "answers s' (fst t) = []"
      by (simp add: answers_waited [OF w])
    with 3 show ?thesis
      by (cases t) simp
  qed
next
  fix v assume "v \<in> set (waitables s') \<or> v \<in> set (held (tasks (pollFunc s'))) \<or> v \<in> set (pendings (stops s'))"
  from c [OF this] consider
    "v \<in> set (waitables s) \<or> v \<in> set (held (tasks (pollFunc s))) \<or> v \<in> set (pendings (stops s))"
    | "v \<notin> fst ` set (watched s)"
    by blast
  then show "answers s' v = []"
  proof cases
    case 1
    from provenanceD(3) [OF P this] show ?thesis
      by (simp add: answers_waited [OF w])
  next
    case 2
    with provenanceD(4) [OF P] have "v \<notin> fst ` set (waited s)"
      by auto
    then show ?thesis
      by (simp add: answers_waited [OF w] answers_fresh)
  qed
next
  fix p assume "p \<in> set (waited s')"
  with w have "p \<in> set (waited s)" by simp
  from provenanceD(4) [OF P this] x show "fst p \<in> fst ` set (watched s')"
    by auto
qed

text \<open>The step that calls \<^verbatim>\<open>wait\<close>.\<close>

lemma provenance_poll_body:
  assumes P: "provenance s" and C: "conserved s" and L: "lifecycle s"
    and h: "Holding w \<in> set (tasks (pollFunc s))"
  shows "provenance (poll_body w out late s)"
proof -
  let ?s' = "poll_body w out late s"
  note alone = held_alone [OF C h]
  from h have hw: "w \<in> set (held (tasks (pollFunc s)))"
    by (simp add: Holding_in_held)
  from provenanceD(3) [OF P, of w] hw have aw: "answers s w = []"
    by simp
  from hw have "held (tasks (pollFunc s)) \<noteq> []"
    by auto
  with L have ns: "\<not> stopped (dispatchFunc s)"
    by (auto simp: lifecycle_def)
  have rest: "v \<in> set (held (remove1 (Holding w) (tasks (pollFunc s)))) \<Longrightarrow>
      v \<in> set (held (tasks (pollFunc s))) \<and> v \<noteq> w" for v
    using held_remove1_subset [of "Holding w" "tasks (pollFunc s)"] alone(2) by auto
  show ?thesis
  proof (rule provenanceI)
    fix t assume t: "t \<in> set (tasks (dispatchFunc ?s'))"
    show "snd t \<noteq> Some ExecutorStopped \<and> explained ?s' t"
    proof (cases "t \<in> set (tasks (dispatchFunc s))")
      case True
      with alone(3) have "fst t \<noteq> w" by auto
      with provenanceD(1) [OF P True] show ?thesis
        by (simp add: explained_other)
    next
      case False
      with t ns have "out \<noteq> NotReady" and "t = (w, snd (poll_wait out))"
        by (auto split: if_splits)
      with explained_answer [OF aw, of out late] show ?thesis
        by simp
    qed
  next
    fix t assume t: "t \<in> set (dispatched ?s')"
    then have t': "t \<in> set (dispatched s)" by simp
    with alone(5) have "fst t \<noteq> w" by auto
    with provenanceD(2) [OF P t'] show "explained ?s' t"
      by (simp add: explained_other)
  next
    fix v
    assume "v \<in> set (waitables ?s') \<or> v \<in> set (held (tasks (pollFunc ?s'))) \<or>
      v \<in> set (pendings (stops ?s'))"
    then have v: "(v = w \<and> out = NotReady) \<or>
        (v \<noteq> w \<and> (v \<in> set (waitables s) \<or> v \<in> set (held (tasks (pollFunc s))) \<or>
           v \<in> set (pendings (stops s))))"
      using alone(1,4) rest [of v] by (auto split: if_splits)
    then show "answers ?s' v = []"
    proof
      assume "v = w \<and> out = NotReady"
      with aw show ?thesis by (simp add: answers_poll_body)
    next
      assume "v \<noteq> w \<and> (v \<in> set (waitables s) \<or> v \<in> set (held (tasks (pollFunc s))) \<or>
           v \<in> set (pendings (stops s)))"
      with provenanceD(3) [OF P, of v] show ?thesis
        by (simp add: answers_poll_body)
    qed
  next
    fix p assume "p \<in> set (waited ?s')"
    then have "p \<in> set (waited s) \<or> p = (w, out)" by auto
    then have "fst p \<in> fst ` set (watched s)"
    proof
      assume "p \<in> set (waited s)"
      then show ?thesis by (rule provenanceD(4) [OF P])
    next
      assume "p = (w, out)"
      with alone(6) show ?thesis by simp
    qed
    then show "fst p \<in> fst ` set (watched ?s')"
      by simp
  qed
qed

lemma provenance_step:
  assumes P: "provenance s" and C: "conserved s" and L: "lifecycle s"
    and st: "step e s = Some s'"
  shows "provenance s'"
proof (cases e)
  case (Watch w)
  with st have s': "s' = watch_locked w s" and fresh: "w \<notin> fst ` set (watched s)"
    by (auto split: if_splits)
  show ?thesis
    by (rule provenance_quiet [OF P]) (use fresh in \<open>auto simp: s' image_iff split: if_splits\<close>)
next
  case (WatchSubmit l)
  with st have s': "s' = snd (watch_submit l s)"
    by (auto split: if_splits)
  show ?thesis
    by (rule provenance_quiet [OF P]) (auto simp: s' split: if_splits)
next
  case PollTop
  with st have s': "s' = poll_top s"
    by (auto split: if_splits)
  show ?thesis
    by (rule provenance_quiet [OF P]; cases "waitables s") (auto simp: s' split: if_splits)
next
  case (PollBody w out l)
  with st have h: "Holding w \<in> set (tasks (pollFunc s))" and s': "s' = poll_body w out l s"
    by (auto split: if_splits)
  from provenance_poll_body [OF P C L h] show ?thesis
    by (simp add: s')
next
  case (Dispatch w err)
  with st have h: "(w, err) \<in> set (tasks (dispatchFunc s))" and s': "s' = dispatch_run (w, err) s"
    by (auto split: if_splits)
  note sub = set_remove1_subset [of "(w, err)" "tasks (dispatchFunc s)"]
  show ?thesis
    by (rule provenance_quiet [OF P]) (use h sub in \<open>auto simp: s' split: if_splits\<close>)
next
  case Stop
  with st have s': "s' = stop_locked s"
    by (auto split: if_splits)
  show ?thesis
    by (rule provenance_quiet [OF P]) (auto simp: s' split: if_splits)
next
  case (StopStep f)
  with st have h: "f \<in> set (stops s)" and ss: "stop_step f s = Some s'"
    by (auto split: if_splits)
  from h L have na: "\<not> active s"
    by (auto simp: lifecycle_def)
  note sub = pendings_remove1_subset [of f "stops s"] frame_pending_subset [OF h]
  from ss show ?thesis
  proof (cases rule: stop_step_elim)
    case (poll p)
    show ?thesis
      by (rule provenance_quiet [OF P]) (use sub poll in auto)
  next
    case (skip p)
    show ?thesis
      by (rule provenance_quiet [OF P]) (use sub skip in auto)
  next
    case (disp p)
    show ?thesis
      by (rule provenance_quiet [OF P]) (use sub disp in auto)
  next
    case (drain p)
    show ?thesis
      by (rule provenance_quiet [OF P]) (use sub drain na in auto)
  qed
next
  case Destroy
  with st have s': "s' = stop_locked (s\<lparr>destructing := True\<rparr>)"
    by (auto split: if_splits)
  show ?thesis
    by (rule provenance_quiet [OF P]) (auto simp: s' split: if_splits)
qed

section \<open>One call stops the runners\<close>

lemma length_filter_remove1:
  "f \<in> set fs \<Longrightarrow>
   length (filter P (remove1 f fs)) + (if P f then 1 else 0) = length (filter P fs)"
  by (induction fs) auto

lemma one_stopper_init: "one_stopper (PollingExecutor sh)"
  by (simp add: one_stopper_def PollingExecutor_def new_runner_def start_def)

lemma one_stopper_stop_locked:
  assumes O: "one_stopper s" and L: "lifecycle s"
  shows "one_stopper (stop_locked (s\<lparr>destructing := d\<rparr>))"
proof (cases "active s")
  case True
  with L have "stops s = []" and "\<not> stopped (dispatchFunc s)"
    by (auto simp: lifecycle_def)
  with True show ?thesis
    by (simp add: one_stopper_def)
next
  case False
  with O show ?thesis
    by (simp add: one_stopper_def)
qed

lemma one_stopper_step:
  assumes O: "one_stopper s" and L: "lifecycle s" and st: "step e s = Some s'"
  shows "one_stopper s'"
proof (cases e)
  case (Watch w)
  with O st show ?thesis
    by (auto simp: one_stopper_def split: if_splits)
next
  case (WatchSubmit l)
  with O st show ?thesis
    by (auto simp: one_stopper_def split: if_splits)
next
  case PollTop
  with O st show ?thesis
    by (auto simp: one_stopper_def split: if_splits)
next
  case (PollBody w out l)
  with O st show ?thesis
    by (auto simp: one_stopper_def split: if_splits)
next
  case (Dispatch w err)
  with O st show ?thesis
    by (auto simp: one_stopper_def split: if_splits)
next
  case Stop
  with st have "s' = stop_locked (s\<lparr>destructing := destructing s\<rparr>)"
    by (auto split: if_splits)
  with one_stopper_stop_locked [OF O L, of "destructing s"] show ?thesis
    by simp
next
  case (StopStep f)
  with st have h: "f \<in> set (stops s)" and ss: "stop_step f s = Some s'"
    by (auto split: if_splits)
  from h L have na: "\<not> active s"
    by (auto simp: lifecycle_def)
  note len = length_filter_remove1 [OF h, of stopping_runners]
  from ss show ?thesis
    by (cases rule: stop_step_elim)
      (use O na len in \<open>auto simp: one_stopper_def simp flip: length_0_conv split: if_splits\<close>)
next
  case Destroy
  with st have "s' = stop_locked (s\<lparr>destructing := True\<rparr>)"
    by (auto split: if_splits)
  with one_stopper_stop_locked [OF O L, of True] show ?thesis
    by simp
qed

section \<open>The invariant holds in every run\<close>

lemma invariant_init: "invariant (PollingExecutor sh)"
  by (simp add: invariant_def conserved_init single_poller_init lifecycle_init provenance_init
      one_stopper_init)

lemma invariant_step: "invariant s \<Longrightarrow> step e s = Some s' \<Longrightarrow> invariant s'"
  unfolding invariant_def
  by (blast intro: conserved_step single_poller_step lifecycle_step provenance_step
      one_stopper_step)

lemma invariant_exec: "invariant s \<Longrightarrow> exec evs s = Some s' \<Longrightarrow> invariant s'"
proof (induction evs arbitrary: s)
  case Nil
  then show ?case by simp
next
  case (Cons e evs)
  then show ?case
    by (auto split: option.splits dest: invariant_step)
qed

lemma invariant_run: "exec evs (PollingExecutor sh) = Some s \<Longrightarrow> invariant s"
  by (rule invariant_exec [OF invariant_init])

section \<open>What a run never undoes\<close>

lemma step_keeps:
  assumes "step e s = Some s'"
  shows "owned s' = owned s"
    and "\<not> active s \<Longrightarrow> \<not> active s'"
    and "set (watched s) \<subseteq> set (watched s')"
proof -
  show "owned s' = owned s"
    using assms
    by (cases e) (auto split: if_splits elim!: stop_step_elim)
  show "\<not> active s \<Longrightarrow> \<not> active s'"
    using assms
    by (cases e) (auto split: if_splits elim!: stop_step_elim)
  show "set (watched s) \<subseteq> set (watched s')"
    using assms
    by (cases e) (auto split: if_splits elim!: stop_step_elim)
qed

lemma exec_keeps:
  "exec evs s = Some s' \<Longrightarrow>
   owned s' = owned s \<and> (\<not> active s \<longrightarrow> \<not> active s') \<and> set (watched s) \<subseteq> set (watched s')"
proof (induction evs arbitrary: s)
  case Nil
  then show ?case by simp
next
  case (Cons e evs)
  from Cons.prems obtain t where t: "step e s = Some t" and r: "exec evs t = Some s'"
    by (auto split: option.splits)
  from Cons.IH [OF r] step_keeps [OF t] show ?case
    by auto
qed

lemma Suc_length_remove1: "x \<in> set xs \<Longrightarrow> Suc (length (remove1 x xs)) = length xs"
  by (induction xs) auto

lemma length_remove1_le: "length (remove1 x xs) \<le> length xs"
  by (simp add: length_remove1)

lemma exec_append:
  "exec (es @ fs) s = (case exec es s of None \<Rightarrow> None | Some t \<Rightarrow> exec fs t)"
  by (induction es arbitrary: s) (auto split: option.splits)

lemma discarded_not_accepted:
  assumes "distinct (map fst xs)" and "(w, False) \<in> set xs"
  shows "w \<notin> set (map fst (filter snd xs))"
proof
  assume "w \<in> set (map fst (filter snd xs))"
  then have "(w, True) \<in> set xs"
    by auto
  moreover from assms(1) have "inj_on fst (set xs)"
    by (simp add: distinct_map)
  ultimately have "(w, True) = (w, False)"
    using assms(2) inj_onD [of fst "set xs" "(w, True)" "(w, False)"] by simp
  then show False
    by simp
qed

text \<open>In every run the dispatch runner has discarded nothing.\<close>

lemma no_custody_left:
  assumes "lifecycle s" and "destructing s" and "stops s = []"
  shows "custody s = []"
proof -
  from assms have "\<not> active s" "waitables s = []" "tasks (pollFunc s) = []"
    by (auto simp: lifecycle_def)
  moreover from assms \<open>\<not> active s\<close> have "stopped (dispatchFunc s)"
    by (auto simp: lifecycle_def)
  with assms(1) have "tasks (dispatchFunc s) = []"
    by (simp add: lifecycle_def)
  ultimately show ?thesis
    using assms(3) by (simp add: custody_def)
qed

lemma step_waited: "step e s = Some s' \<Longrightarrow> \<exists>zs. waited s' = waited s @ zs"
  by (cases e) (auto split: if_splits elim!: stop_step_elim)

lemma exec_waited: "exec evs s = Some s' \<Longrightarrow> \<exists>zs. waited s' = waited s @ zs"
proof (induction evs arbitrary: s)
  case Nil
  then show ?case by simp
next
  case (Cons e evs)
  from Cons.prems obtain t where t: "step e s = Some t" and r: "exec evs t = Some s'"
    by (auto split: option.splits)
  from Cons.IH [OF r] step_waited [OF t] show ?case
    by auto
qed

lemma answers_grow: "waited s' = waited s @ zs \<Longrightarrow> \<exists>as. answers s' w = answers s w @ as"
  by (simp add: answers_def)

text \<open>With one poll loop alive, the loop that holds \<open>w\<close> is the only task of the poll
  runner.\<close>

lemma the_poller:
  assumes "single_poller s" and "p \<in> set (tasks (pollFunc s))"
  shows "tasks (pollFunc s) = [p]" and "submitting s = 0" and "isPollerRunning s"
proof -
  from assms(2) obtain q qs where q: "tasks (pollFunc s) = q # qs"
    by (cases "tasks (pollFunc s)") auto
  with assms(1) have "qs = []" and s0: "submitting s = 0" and r: "isPollerRunning s"
    by (auto simp: single_poller_def split: if_splits)
  with q assms(2) show "tasks (pollFunc s) = [p]"
    by simp
  from s0 show "submitting s = 0" .
  from r show "isPollerRunning s" .
qed

section \<open>First in, first checked\<close>

lemma ahead_append: "ahead a b ws \<Longrightarrow> ahead a b (ws @ [w])"
  by (simp add: ahead_def takeWhile_append1 [of a ws])

lemma ahead_Cons: "ahead a b (h # ws) \<Longrightarrow> h \<noteq> a \<and> a \<in> set ws \<and> (b = h \<or> ahead a b ws)"
  by (auto simp: ahead_def split: if_splits)

lemma ahead_start:
  assumes "a \<notin> set xs" and "b \<in> set xs"
  shows "ahead a b (xs @ a # ys)"
proof -
  from assms(1) have "takeWhile (\<lambda>x. x \<noteq> a) (xs @ a # ys) = xs @ takeWhile (\<lambda>x. x \<noteq> a) (a # ys)"
    by (intro takeWhile_append2) auto
  with assms(2) show ?thesis
    by (simp add: ahead_def)
qed

lemma queued_not_held:
  assumes C: "conserved s" and q: "a \<in> set (waitables s)"
  shows "a \<notin> set (held (tasks (pollFunc s)))"
proof
  assume "a \<in> set (held (tasks (pollFunc s)))"
  then have "count_list (held (tasks (pollFunc s))) a \<noteq> 0"
    by (simp add: count_list_0_iff)
  moreover from q have "count_list (waitables s) a \<noteq> 0"
    by (simp add: count_list_0_iff)
  ultimately have "2 \<le> holders s a"
    by (simp add: holders_def custody_def)
  with holders_le_1 [OF C, of a] show False
    by simp
qed

lemma queue_distinct:
  assumes C: "conserved s" and q: "waitables s = xs @ a # ys"
  shows "a \<notin> set xs"
proof
  assume "a \<in> set xs"
  then have "count_list xs a \<noteq> 0"
    by (simp add: count_list_0_iff)
  with q have "2 \<le> holders s a"
    by (simp add: holders_def custody_def)
  with holders_le_1 [OF C, of a] show False
    by simp
qed

lemma checked_since_same: "waited s' = waited s \<Longrightarrow> checked_since n s' = checked_since n s"
  by (simp add: checked_since_def)

lemma checked_since_poll_body:
  "n \<le> length (waited s) \<Longrightarrow>
   checked_since n (poll_body w out late s) = insert w (checked_since n s)"
  by (simp add: checked_since_def)

lemma turn_step:
  assumes I: "invariant s" and st: "step e s = Some s'" and T: "turn a b n s"
  shows "turn a b n s'"
proof -
  from I have C: "conserved s" and S: "single_poller s"
    by (simp_all add: invariant_def)
  from T have n: "n \<le> length (waited s)" and aw: "a \<in> fst ` set (watched s)"
    by (simp_all add: turn_def)
  from step_waited [OF st] n have n': "n \<le> length (waited s')"
    by auto
  from step_keeps(3) [OF st] aw have aw': "a \<in> fst ` set (watched s')"
    by auto
  let ?H = "\<lambda>s. set (held (tasks (pollFunc s)))"
  from T consider
    (checked) "b \<in> checked_since n s"
    | (gone) "a \<notin> set (waitables s)" "a \<notin> ?H s"
    | (ahead) "ahead a b (waitables s)"
    | (polled) "a \<in> set (waitables s)" "b \<in> ?H s"
    by (auto simp: turn_def)
  note T = this
  have "b \<in> checked_since n s' \<or> (a \<notin> set (waitables s') \<and> a \<notin> ?H s') \<or>
      ahead a b (waitables s') \<or> (a \<in> set (waitables s') \<and> b \<in> ?H s')"
  proof (cases e)
    case (Watch w)
    with st have s': "s' = watch_locked w s" and fresh: "w \<notin> fst ` set (watched s)"
      by (auto split: if_splits)
    from fresh aw have "w \<noteq> a"
      by auto
    with T show ?thesis
      by cases (auto simp: s' checked_since_def intro: ahead_append)
  next
    case (WatchSubmit l)
    with st have s': "s' = snd (watch_submit l s)"
      by (auto split: if_splits)
    from T show ?thesis
      by cases (auto simp: s' checked_since_def)
  next
    case PollTop
    with st have at: "AtTop \<in> set (tasks (pollFunc s))" and s': "s' = poll_top s"
      by (auto split: if_splits)
    from the_poller(1) [OF S at] have only: "tasks (pollFunc s) = [AtTop]" .
    show ?thesis
    proof (cases "waitables s = [] \<or> \<not> active s")
      case True
      with T only show ?thesis
        by cases (auto simp: s' checked_since_def)
    next
      case False
      then obtain h ws where q: "waitables s = h # ws" and act: "active s"
        by (cases "waitables s") auto
      from T show ?thesis
      proof cases
        case checked
        then show ?thesis
          by (simp add: s' checked_since_def)
      next
        case gone
        with q act only show ?thesis
          by (auto simp: s')
      next
        case ahead
        with q ahead_Cons [of a b h ws] act only show ?thesis
          by (auto simp: s')
      next
        case polled
        with only show ?thesis
          by simp
      qed
    qed
  next
    case (PollBody w out l)
    with st have h: "Holding w \<in> set (tasks (pollFunc s))" and s': "s' = poll_body w out l s"
      by (auto split: if_splits)
    from the_poller(1) [OF S h] have only: "tasks (pollFunc s) = [Holding w]" .
    from T show ?thesis
    proof cases
      case checked
      with n show ?thesis
        by (simp add: s' checked_since_poll_body)
    next
      case gone
      with only show ?thesis
        by (auto simp: s')
    next
      case ahead
      then have "ahead a b (waitables s')"
        by (auto simp: s' intro: ahead_append)
      then show ?thesis
        by simp
    next
      case polled
      with only n show ?thesis
        by (simp add: s' checked_since_poll_body)
    qed
  next
    case (Dispatch w err)
    with st have s': "s' = dispatch_run (w, err) s"
      by (auto split: if_splits)
    from T show ?thesis
      by cases (auto simp: s' checked_since_def)
  next
    case Stop
    with st have s': "s' = stop_locked s"
      by (auto split: if_splits)
    from T queued_not_held [OF C, of a] show ?thesis
      by cases (auto simp: s' checked_since_def ahead_def)
  next
    case (StopStep f)
    with st have "stop_step f s = Some s'"
      by (auto split: if_splits)
    then have "waited s' = waited s" "waitables s' = waitables s"
      "tasks (pollFunc s') = tasks (pollFunc s)"
      by (auto elim!: stop_step_elim)
    with T show ?thesis
      by cases (auto simp: checked_since_def)
  next
    case Destroy
    with st have s': "s' = stop_locked (s\<lparr>destructing := True\<rparr>)"
      by (auto split: if_splits)
    from T queued_not_held [OF C, of a] show ?thesis
      by cases (auto simp: s' checked_since_def ahead_def)
  qed
  with n' aw' show ?thesis
    by (simp add: turn_def)
qed

lemma turn_exec:
  "invariant s \<Longrightarrow> exec evs s = Some s' \<Longrightarrow> turn a b n s \<Longrightarrow> turn a b n s'"
proof (induction evs arbitrary: s)
  case Nil
  then show ?case by simp
next
  case (Cons e evs)
  from Cons.prems(2) obtain t where t: "step e s = Some t" and r: "exec evs t = Some s'"
    by (auto split: option.splits)
  from Cons.IH [OF invariant_step [OF Cons.prems(1) t] r turn_step [OF Cons.prems(1) t Cons.prems(3)]]
  show ?case .
qed

text \<open>When \<open>a\<close> is popped, every operation that stood before it has been checked.\<close>

lemma fifo_turns:
  assumes I: "invariant s0" and q: "waitables s0 = xs @ a # ys" and b: "b \<in> set xs"
    and later: "exec evs s0 = Some s" and again: "Holding a \<in> set (tasks (pollFunc s))"
  shows "b \<in> checked_since (length (waited s0)) s"
proof -
  from I have C0: "conserved s0"
    by (simp add: invariant_def)
  from q have "0 < holders s0 a"
    by (simp add: holders_def custody_def)
  from accepted_watched [OF holders_accepted [OF C0 this]] have "a \<in> fst ` set (watched s0)" .
  moreover from queue_distinct [OF C0 q] b have "ahead a b (waitables s0)"
    by (simp add: q ahead_start)
  ultimately have "turn a b (length (waited s0)) s0"
    by (simp add: turn_def)
  from turn_exec [OF I later this] have T: "turn a b (length (waited s0)) s" .
  from invariant_exec [OF I later] have C: "conserved s"
    by (simp add: invariant_def)
  from again have h: "a \<in> set (held (tasks (pollFunc s)))"
    by (simp add: Holding_in_held)
  with queued_not_held [OF C, of a] have "a \<notin> set (waitables s)"
    by auto
  with T h show ?thesis
    by (auto simp: turn_def ahead_def)
qed

section \<open>After the destructor has started\<close>

lemma step_destructing:
  assumes "step e s = Some s'" and "destructing s" and "lifecycle s"
  shows "destructing s'" and "waited s' = waited s"
proof -
  from assms(2,3) have idle: "tasks (pollFunc s) = []" "submitting s = 0"
    by (simp_all add: lifecycle_def)
  show "destructing s'"
    using assms(1,2) by (cases e) (auto split: if_splits elim!: stop_step_elim)
  show "waited s' = waited s"
    using assms(1,2) idle by (cases e) (auto split: if_splits elim!: stop_step_elim)
qed

lemma exec_destructing:
  "exec evs s = Some s' \<Longrightarrow> destructing s \<Longrightarrow> invariant s \<Longrightarrow>
   destructing s' \<and> waited s' = waited s"
proof (induction evs arbitrary: s)
  case Nil
  then show ?case by simp
next
  case (Cons e evs)
  from Cons.prems(1) obtain t where t: "step e s = Some t" and r: "exec evs t = Some s'"
    by (auto split: option.splits)
  from Cons.prems(3) have L: "lifecycle s"
    by (simp add: invariant_def)
  from Cons.IH [OF r step_destructing(1) [OF t Cons.prems(2) L] invariant_step [OF Cons.prems(3) t]]
    step_destructing(2) [OF t Cons.prems(2) L]
  show ?case
    by simp
qed

lemma destructor_is_stop: "destructor s = map_option (\<lambda>t. t\<lparr>destructing := True\<rparr>) (stop s)"
  by (cases "active s")
    (simp_all add: destructor_def stop_def stop_locked_def stop_step.simps stop_runner_def
      split: option.splits)

lemma completed_in_log:
  "completions s w \<noteq> 0 \<Longrightarrow> \<exists>err. (w, err) \<in> set (dispatched s)"
  by (auto simp: completions_def count_list_0_iff)

section \<open>Every run can be wound down\<close>

text \<open>Unless the destructor has returned, some step is possible that brings the end
  nearer: a pending submission, \<^verbatim>\<open>stop\<close>, the poll loop (with a \<^verbatim>\<open>wait\<close> that returns
  false), a work item of the dispatch runner, a call of \<^verbatim>\<open>stop\<close> in progress, the
  destructor.\<close>

lemma wind_down_step:
  assumes I: "invariant s" and more: "\<not> (destructing s \<and> stops s = [])"
  shows "\<exists>e s'. step e s = Some s' \<and> remaining s' < remaining s"
proof -
  from I have L: "lifecycle s"
    by (simp add: invariant_def)
  consider
    (submit) "submitting s \<noteq> 0"
    | (stop) "submitting s = 0" "\<not> destructing s" "active s"
    | (poll) "submitting s = 0" "\<not> active s" "tasks (pollFunc s) \<noteq> []"
    | (dispatch) "tasks (pollFunc s) = []" "tasks (dispatchFunc s) \<noteq> []"
    | (frame) "tasks (pollFunc s) = []" "tasks (dispatchFunc s) = []" "stops s \<noteq> []"
    | (destroy) "submitting s = 0" "tasks (pollFunc s) = []" "stops s = []" "\<not> destructing s"
    using more L by (auto simp: lifecycle_def)
  then show ?thesis
  proof cases
    case submit
    then have "step (WatchSubmit False) s = Some (snd (watch_submit False s))"
      by simp
    moreover from submit obtain n where "submitting s = Suc n"
      by (cases "submitting s") auto
    then have "remaining (snd (watch_submit False s)) < remaining s"
      by (simp add: remaining_def)
    ultimately show ?thesis
      by blast
  next
    case stop
    then have "step Stop s = Some (stop_locked s)"
      by simp
    moreover from stop have "remaining (stop_locked s) < remaining s"
      by (simp add: remaining_def)
    ultimately show ?thesis
      by blast
  next
    case poll
    then obtain p ps where ps: "tasks (pollFunc s) = p # ps"
      by (cases "tasks (pollFunc s)") auto
    show ?thesis
    proof (cases p)
      case AtTop
      with ps have "step PollTop s = Some (poll_top s)"
        by simp
      moreover from ps AtTop poll have "remaining (poll_top s) < remaining s"
        by (simp add: remaining_def)
      ultimately show ?thesis
        by blast
    next
      case (Holding w)
      with ps have "step (PollBody w NotReady False) s = Some (poll_body w NotReady False s)"
        by simp
      moreover from ps Holding have "remaining (poll_body w NotReady False s) < remaining s"
        by (simp add: remaining_def)
      ultimately show ?thesis
        by blast
    qed
  next
    case dispatch
    then obtain w err ts where ts: "tasks (dispatchFunc s) = (w, err) # ts"
      by (cases "tasks (dispatchFunc s)") auto
    then have "step (Dispatch w err) s = Some (dispatch_run (w, err) s)"
      by simp
    moreover from ts have "remaining (dispatch_run (w, err) s) < remaining s"
      by (simp add: remaining_def)
    ultimately show ?thesis
      by blast
  next
    case frame
    then obtain f fs where fs: "stops s = f # fs"
      by (cases "stops s") auto
    show ?thesis
    proof (cases f)
      case (AtRunners a p)
      show ?thesis
      proof (cases a)
        case True
        let ?s' = "s\<lparr>pollFunc := (pollFunc s)\<lparr>stopped := True\<rparr>,
                     stops := AtDispatchStop p # remove1 (AtRunners True p) (stops s)\<rparr>"
        from fs AtRunners True frame have "step (StopStep f) s = Some ?s'"
          by (simp add: stop_step_Some)
        moreover from fs AtRunners True have "remaining ?s' < remaining s"
          by (simp add: remaining_def)
        ultimately show ?thesis
          by blast
      next
        case False
        let ?s' = "s\<lparr>stops := AtDrain p # remove1 (AtRunners False p) (stops s)\<rparr>"
        from fs AtRunners False have "step (StopStep f) s = Some ?s'"
          by (simp add: stop_step_Some)
        moreover from fs AtRunners False have "remaining ?s' < remaining s"
          by (simp add: remaining_def)
        ultimately show ?thesis
          by blast
      qed
    next
      case (AtDispatchStop p)
      let ?s' = "s\<lparr>dispatchFunc := (dispatchFunc s)\<lparr>stopped := True\<rparr>,
                   stops := AtDrain p # remove1 (AtDispatchStop p) (stops s)\<rparr>"
      from fs AtDispatchStop frame have "step (StopStep f) s = Some ?s'"
        by (simp add: stop_step_Some)
      moreover from fs AtDispatchStop have "remaining ?s' < remaining s"
        by (simp add: remaining_def)
      ultimately show ?thesis
        by blast
    next
      case (AtDrain p)
      let ?s' = "s\<lparr>dispatched := dispatched s @ map (\<lambda>w. (w, Some ExecutorStopped)) p,
                   stops := remove1 (AtDrain p) (stops s)\<rparr>"
      from fs AtDrain have "step (StopStep f) s = Some ?s'"
        by (simp add: stop_step_Some)
      moreover from fs AtDrain have "remaining ?s' < remaining s"
        by (simp add: remaining_def)
      ultimately show ?thesis
        by blast
    qed
  next
    case destroy
    then have "step Destroy s = Some (stop_locked (s\<lparr>destructing := True\<rparr>))"
      by simp
    moreover from destroy have "remaining (stop_locked (s\<lparr>destructing := True\<rparr>)) < remaining s"
      by (simp add: remaining_def)
    ultimately show ?thesis
      by blast
  qed
qed

lemma wind_down:
  "invariant s \<Longrightarrow> \<exists>evs s'. exec evs s = Some s' \<and> destructing s' \<and> stops s' = []"
proof (induction "remaining s" arbitrary: s rule: less_induct)
  case less
  show ?case
  proof (cases "destructing s \<and> stops s = []")
    case True
    then have "exec [] s = Some s \<and> destructing s \<and> stops s = []"
      by simp
    then show ?thesis
      by blast
  next
    case False
    from wind_down_step [OF less.prems False]
    obtain e t where t: "step e s = Some t" and lt: "remaining t < remaining s"
      by blast
    from less.hyps [OF lt invariant_step [OF less.prems t]]
    obtain evs s' where "exec evs t = Some s'" and fin: "destructing s' \<and> stops s' = []"
      by blast
    with t have "exec (e # evs) s = Some s'"
      by simp
    with fin show ?thesis
      by blast
  qed
qed

text \<open>An operation that \<^verbatim>\<open>watch\<close> has pushed stays pushed, and is in one place.\<close>

lemma accepted_mono:
  assumes "exec evs s = Some s'" and "w \<in> set (accepted s)"
  shows "w \<in> set (accepted s')"
proof -
  from exec_keeps [OF assms(1)] have "set (watched s) \<subseteq> set (watched s')"
    by simp
  with assms(2) show ?thesis
    by (auto simp: accepted_def)
qed

lemma accepted_once:
  assumes I: "invariant s" and acc: "w \<in> set (accepted s)"
  shows "completions s w + count_list (custody s) w = 1"
    and "destructing s \<Longrightarrow> stops s = [] \<Longrightarrow> completions s w = 1"
proof -
  from I have C: "conserved s" and L: "lifecycle s"
    by (simp_all add: invariant_def)
  from acc have "count_list (accepted s) w \<noteq> 0"
    by (simp add: count_list_0_iff)
  moreover from C have "holders s w = count_list (accepted s) w"
    by (simp add: conserved_def)
  moreover note holders_le_1 [OF C, of w]
  ultimately have "holders s w = 1"
    by simp
  moreover from L have "dropped (dispatchFunc s) = []"
    by (simp add: lifecycle_def)
  ultimately show one: "completions s w + count_list (custody s) w = 1"
    by (simp add: holders_def)
  show "completions s w = 1" if "destructing s" "stops s = []"
    using one no_custody_left [OF L that] by simp
qed

section \<open>The snapshot of a call of stop\<close>

lemma step_dispatched: "step e t = Some t' \<Longrightarrow> set (dispatched t) \<subseteq> set (dispatched t')"
  by (cases e) (auto split: if_splits elim!: stop_step_elim)

text \<open>A snapshot that a call of \<^verbatim>\<open>stop\<close> holds stays whole with that call, whatever
  else runs, until the call has called \<^verbatim>\<open>dispatch\<close> with the stop error on all of it.\<close>

lemma snapshot_step:
  assumes st: "step e t = Some t'"
    and Q: "(\<exists>f\<in>set (stops t). frame_pending f = ws) \<or>
            (\<forall>w\<in>set ws. (w, Some ExecutorStopped) \<in> set (dispatched t))"
  shows "(\<exists>f\<in>set (stops t'). frame_pending f = ws) \<or>
         (\<forall>w\<in>set ws. (w, Some ExecutorStopped) \<in> set (dispatched t'))"
  using Q
proof
  assume "\<forall>w\<in>set ws. (w, Some ExecutorStopped) \<in> set (dispatched t)"
  with step_dispatched [OF st] show ?thesis
    by blast
next
  assume "\<exists>f\<in>set (stops t). frame_pending f = ws"
  then obtain f where f: "f \<in> set (stops t)" and p: "frame_pending f = ws"
    by blast
  show ?thesis
  proof (cases e)
    case (StopStep g)
    with st have g: "g \<in> set (stops t)" and ss: "stop_step g t = Some t'"
      by (auto split: if_splits)
    show ?thesis
    proof (cases "f = g")
      case True
      from ss show ?thesis
        by (cases rule: stop_step_elim) (use True p in auto)
    next
      case False
      with f have "f \<in> set (remove1 g (stops t))"
        by simp
      moreover from ss have "set (remove1 g (stops t)) \<subseteq> set (stops t')"
        by (cases rule: stop_step_elim) auto
      ultimately show ?thesis
        using p by blast
    qed
  next
    case (Watch w)
    with st f p show ?thesis by (auto split: if_splits)
  next
    case (WatchSubmit l)
    with st f p show ?thesis by (auto split: if_splits)
  next
    case PollTop
    with st f p show ?thesis by (auto split: if_splits)
  next
    case (PollBody w out l)
    with st f p show ?thesis by (auto split: if_splits)
  next
    case (Dispatch w err)
    with st f p show ?thesis by (auto split: if_splits)
  next
    case Stop
    with st f p show ?thesis by (auto split: if_splits)
  next
    case Destroy
    with st f p show ?thesis by (auto split: if_splits)
  qed
qed

lemma snapshot_exec:
  "exec evs t = Some t' \<Longrightarrow>
   (\<exists>f\<in>set (stops t). frame_pending f = ws) \<or>
     (\<forall>w\<in>set ws. (w, Some ExecutorStopped) \<in> set (dispatched t)) \<Longrightarrow>
   (\<exists>f\<in>set (stops t'). frame_pending f = ws) \<or>
     (\<forall>w\<in>set ws. (w, Some ExecutorStopped) \<in> set (dispatched t'))"
proof (induction evs arbitrary: t)
  case Nil
  then show ?case by simp
next
  case (Cons e evs)
  from Cons.prems(1) obtain u where u: "step e t = Some u" and r: "exec evs u = Some t'"
    by (auto split: option.splits)
  from Cons.IH [OF r snapshot_step [OF u Cons.prems(2)]] show ?case .
qed

text \<open>An operation of a snapshot is with that call of \<^verbatim>\<open>stop\<close> and nowhere else, or
  \<^verbatim>\<open>dispatch\<close> has been called on it once, with the stop error.\<close>

lemma snapshot_member:
  assumes I: "invariant t" and acc: "w \<in> set (accepted t)"
    and Q: "w \<in> set (pendings (stops t)) \<or> (w, Some ExecutorStopped) \<in> set (dispatched t)"
  shows "completions t w \<le> 1"
    and "w \<notin> set (waitables t)"
    and "w \<notin> set (held (tasks (pollFunc t)))"
    and "w \<notin> fst ` set (tasks (dispatchFunc t))"
    and "(w, err) \<in> set (dispatched t) \<Longrightarrow> err = Some ExecutorStopped"
    and "w \<notin> set (pendings (stops t)) \<Longrightarrow>
         completions t w = 1 \<and> (w, Some ExecutorStopped) \<in> set (dispatched t)"
proof -
  from I have P: "provenance t"
    by (simp add: invariant_def)
  note one = accepted_once(1) [OF I acc]
  from one show "completions t w \<le> 1"
    by simp
  have split: "count_list (pendings (stops t)) w + completions t w \<noteq> 0"
    using Q
  proof
    assume "w \<in> set (pendings (stops t))"
    then show ?thesis by (simp add: count_list_0_iff)
  next
    assume "(w, Some ExecutorStopped) \<in> set (dispatched t)"
    then have "w \<in> set (map fst (dispatched t))" by force
    then show ?thesis by (simp add: completions_def count_list_0_iff)
  qed
  from one have "count_list (waitables t) w + count_list (held (tasks (pollFunc t))) w +
      count_list (map fst (tasks (dispatchFunc t))) w +
      (count_list (pendings (stops t)) w + completions t w) = 1"
    by (simp add: custody_def)
  with split have z: "count_list (waitables t) w = 0"
    "count_list (held (tasks (pollFunc t))) w = 0"
    "count_list (map fst (tasks (dispatchFunc t))) w = 0"
    by linarith+
  from z(1) show "w \<notin> set (waitables t)"
    by (simp add: count_list_0_iff)
  from z(2) show "w \<notin> set (held (tasks (pollFunc t)))"
    by (simp add: count_list_0_iff)
  from z(3) show "w \<notin> fst ` set (tasks (dispatchFunc t))"
    by (simp add: count_list_0_iff)
  have a: "answers t w = []"
    using Q
  proof
    assume "w \<in> set (pendings (stops t))"
    with provenanceD(3) [OF P, of w] show ?thesis by simp
  next
    assume "(w, Some ExecutorStopped) \<in> set (dispatched t)"
    from provenanceD(2) [OF P this] show ?thesis by simp
  qed
  show "err = Some ExecutorStopped" if "(w, err) \<in> set (dispatched t)"
    using provenanceD(2) [OF P that] a
    by (cases "(t, (w, err))" rule: explained.cases) simp_all
  show "completions t w = 1 \<and> (w, Some ExecutorStopped) \<in> set (dispatched t)"
    if "w \<notin> set (pendings (stops t))"
  proof -
    from that Q have d: "(w, Some ExecutorStopped) \<in> set (dispatched t)"
      by simp
    then have "w \<in> set (map fst (dispatched t))" by force
    then have "completions t w \<noteq> 0"
      by (simp add: completions_def count_list_0_iff)
    with one d show ?thesis by simp
  qed
qed


section \<open>The properties of the specification\<close>

text \<open>
  C1. In every run, for every operation that \<^verbatim>\<open>watch\<close> has pushed: \<^verbatim>\<open>dispatch\<close> has been
  called on it at most once; it is either still with the object (queued, in the hands
  of the poll loop, in a work item of the dispatch runner, in the snapshot of a \<^verbatim>\<open>stop\<close>)
  or \<^verbatim>\<open>dispatch\<close> has been called on it, never both and never neither; when the
  destructor has returned, \<^verbatim>\<open>dispatch\<close> has been called on it exactly once; and the run
  can always go on until the destructor has returned. The argument of each call is
  \<^verbatim>\<open>nullptr\<close> after the one \<^verbatim>\<open>wait\<close> that returned true, the exception of the one \<^verbatim>\<open>wait\<close>
  that threw, or the stop error on an operation that no \<^verbatim>\<open>wait\<close> had found ready, given
  after \<^verbatim>\<open>stop\<close> had made the object inactive.
\<close>

theorem complete_exactly_once:
  assumes run: "exec evs (PollingExecutor sh) = Some s"
    and acc: "w \<in> set (accepted s)"
  shows "completions s w \<le> 1 \<and>
         completions s w + count_list (custody s) w = 1 \<and>
         (destructing s \<and> stops s = [] \<longrightarrow> completions s w = 1) \<and>
         (\<exists>evs' s'. exec evs' s = Some s' \<and> destructing s' \<and> stops s' = [] \<and>
            completions s' w = 1) \<and>
         (\<forall>err. (w, err) \<in> set (dispatched s) \<longrightarrow> explained s (w, err))"
proof -
  from invariant_run [OF run] have I: "invariant s" .
  then have P: "provenance s"
    by (simp add: invariant_def)
  note one = accepted_once [OF I acc]
  from wind_down [OF I] obtain evs' s' where r: "exec evs' s = Some s'"
    and fin: "destructing s'" "stops s' = []"
    by blast
  from accepted_once(2) [OF invariant_exec [OF I r] accepted_mono [OF r acc] fin]
  have "completions s' w = 1" .
  with r fin have "\<exists>evs' s'. exec evs' s = Some s' \<and> destructing s' \<and> stops s' = [] \<and>
      completions s' w = 1"
    by blast
  moreover have "explained s (w, err)" if "(w, err) \<in> set (dispatched s)" for err
    using provenanceD(2) [OF P that] .
  ultimately show ?thesis
    using one by simp
qed

theorem complete_exactly_once_witness:
  "map_option (\<lambda>s. (accepted s, custody s, completions s 1, completions s 2, dispatched s))
     (exec [Watch 1, Watch 2, WatchSubmit False, PollTop, PollBody 1 (Threw 7) False, Stop,
            Dispatch 1 (Some (WaitError 7)), PollTop, StopStep (AtRunners True [2]),
            StopStep (AtDispatchStop [2]), StopStep (AtDrain [2]), Destroy,
            StopStep (AtRunners False []), StopStep (AtDrain [])]
        (PollingExecutor True))
   = Some ([1, 2], [], 1, 1, [(1, Some (WaitError 7)), (2, Some ExecutorStopped)])"
proof -
  let ?evs = "[Watch 1, Watch 2, WatchSubmit False, PollTop, PollBody 1 (Threw 7) False, Stop,
            Dispatch 1 (Some (WaitError 7)), PollTop, StopStep (AtRunners True [2]),
            StopStep (AtDispatchStop [2]), StopStep (AtDrain [2]), Destroy,
            StopStep (AtRunners False []), StopStep (AtDrain [])]"
  have ev: "map_option (\<lambda>s. (accepted s, custody s, destructing s, stops s, dispatched s))
      (exec ?evs (PollingExecutor True))
    = Some ([1, 2], [], True, [], [(1, Some (WaitError 7)), (2, Some ExecutorStopped)])"
    by (simp add: PollingExecutor_def new_runner_def start_def stop_step.simps stop_runner_def
        accepted_def custody_def)
  then obtain s where s: "exec ?evs (PollingExecutor True) = Some s"
    by blast
  with ev have f: "accepted s = [1, 2]" "custody s = []" "destructing s" "stops s = []"
    "dispatched s = [(1, Some (WaitError 7)), (2, Some ExecutorStopped)]"
    by simp_all
  from complete_exactly_once [OF s, of 1] complete_exactly_once [OF s, of 2] f
  have "completions s 1 = 1" "completions s 2 = 1"
    by simp_all
  with s f show ?thesis
    by simp
qed

text \<open>
  C2. In every run at most one poll loop is alive, counting a loop that a call of
  \<^verbatim>\<open>watch\<close> is about to submit, and while there is one \<^verbatim>\<open>isPollerRunning_\<close> is set. Only
  the critical section of \<^verbatim>\<open>watch\<close> sends a call on to submit a loop, and only when it
  turns the flag from false to true; only the submission at line 92 adds a loop; the
  only step that clears the flag is the critical section at the head of the loop,
  and the loop that clears it ends with that step, leaving no loop alive.
\<close>

theorem at_most_one_poll_loop:
  assumes run: "exec evs (PollingExecutor sh) = Some s"
  shows "length (tasks (pollFunc s)) + submitting s \<le> 1 \<and>
         (0 < length (tasks (pollFunc s)) + submitting s \<longrightarrow> isPollerRunning s) \<and>
         (step e s = Some s' \<and> submitting s < submitting s' \<longrightarrow>
            (\<exists>w. e = Watch w) \<and> \<not> isPollerRunning s \<and> isPollerRunning s' \<and>
            submitting s' = Suc (submitting s)) \<and>
         (step e s = Some s' \<and> length (tasks (pollFunc s)) < length (tasks (pollFunc s')) \<longrightarrow>
            (\<exists>late. e = WatchSubmit late) \<and> submitting s' < submitting s) \<and>
         (step e s = Some s' \<and> isPollerRunning s \<and> \<not> isPollerRunning s' \<longrightarrow>
            e = PollTop \<and> (waitables s = [] \<or> \<not> active s) \<and>
            tasks (pollFunc s') = [] \<and> submitting s' = 0)"
proof -
  from invariant_run [OF run] have S: "single_poller s"
    by (simp add: invariant_def)
  then have le: "length (tasks (pollFunc s)) + submitting s \<le> (if isPollerRunning s then 1 else 0)"
    by (simp add: single_poller_def add.commute)
  have one: "length (tasks (pollFunc s)) + submitting s \<le> 1"
    using le by (simp split: if_splits)
  have flag: "isPollerRunning s" if "0 < length (tasks (pollFunc s)) + submitting s"
    using le that by (simp split: if_splits)
  have sub: "(\<exists>w. e = Watch w) \<and> \<not> isPollerRunning s \<and> isPollerRunning s' \<and>
      submitting s' = Suc (submitting s)"
    if "step e s = Some s' \<and> submitting s < submitting s'"
    using that by (cases e) (auto split: if_splits elim!: stop_step_elim)
  have grow: "(\<exists>late. e = WatchSubmit late) \<and> submitting s' < submitting s"
    if "step e s = Some s' \<and> length (tasks (pollFunc s)) < length (tasks (pollFunc s'))"
    using that length_remove1_le [of AtTop "tasks (pollFunc s)"]
    by (cases e) (auto simp: Suc_length_remove1 split: if_splits elim!: stop_step_elim)
  have clear: "e = PollTop \<and> (waitables s = [] \<or> \<not> active s) \<and>
      tasks (pollFunc s') = [] \<and> submitting s' = 0"
    if h: "step e s = Some s' \<and> isPollerRunning s \<and> \<not> isPollerRunning s'"
  proof -
    from h have e: "e = PollTop"
      by (cases e) (auto split: if_splits elim!: stop_step_elim)
    with h have a: "AtTop \<in> set (tasks (pollFunc s))" and s': "s' = poll_top s"
      by (auto split: if_splits)
    from a obtain n where n: "length (tasks (pollFunc s)) = Suc n"
      by (cases "tasks (pollFunc s)") auto
    with one have n0: "n = 0" and s0: "submitting s = 0"
      by simp_all
    from a n n0 have "length (remove1 AtTop (tasks (pollFunc s))) = 0"
      by (simp add: length_remove1)
    with h e s0 show ?thesis
      by (auto simp: s')
  qed
  from one flag sub grow clear show ?thesis
    by blast
qed

theorem at_most_one_poll_loop_witness:
  "map_option (\<lambda>s. (tasks (pollFunc s), submitting s, isPollerRunning s))
     (exec [Watch 1, WatchSubmit False, Watch 2, PollTop, Watch 3] (PollingExecutor True))
   = Some ([Holding 1], 0, True) \<and>
   map_option (\<lambda>s. (tasks (pollFunc s), submitting s, isPollerRunning s))
     (exec [Watch 1, WatchSubmit False, PollTop, PollBody 1 Ready False, PollTop]
        (PollingExecutor True))
   = Some ([], 0, False)"
proof -
  let ?evs = "[Watch 1, WatchSubmit False, Watch 2, PollTop, Watch 3]"
  let ?evs' = "[Watch 1, WatchSubmit False, PollTop, PollBody 1 Ready False]"
  have ev: "map_option (\<lambda>s. (tasks (pollFunc s), isPollerRunning s))
      (exec ?evs (PollingExecutor True)) = Some ([Holding 1], True)"
    by (simp add: PollingExecutor_def new_runner_def start_def)
  then obtain s where s: "exec ?evs (PollingExecutor True) = Some s"
    by blast
  with ev have f: "tasks (pollFunc s) = [Holding 1]" "isPollerRunning s"
    by simp_all
  have ev': "map_option (\<lambda>s. (waitables s, isPollerRunning s, tasks (pollFunc s)))
      (exec ?evs' (PollingExecutor True)) = Some ([], True, [AtTop])"
    by (simp add: PollingExecutor_def new_runner_def start_def)
  then obtain t where t: "exec ?evs' (PollingExecutor True) = Some t"
    by blast
  with ev' have g: "waitables t = []" "isPollerRunning t" "tasks (pollFunc t) = [AtTop]"
    by simp_all
  from g have st: "step PollTop t = Some (poll_top t)" and nr: "\<not> isPollerRunning (poll_top t)"
    by simp_all
  from at_most_one_poll_loop [OF s, of PollTop s] f have "submitting s = 0"
    by simp
  moreover
  from at_most_one_poll_loop [OF t, of PollTop "poll_top t"] st g nr
  have "tasks (pollFunc (poll_top t)) = []" "submitting (poll_top t) = 0"
    by simp_all
  moreover from t st have "exec (?evs' @ [PollTop]) (PollingExecutor True) = Some (poll_top t)"
    by (simp only: exec_append option.case exec.simps)
  ultimately show ?thesis
    using s f nr by simp
qed

text \<open>
  C3. In every run, a call of \<^verbatim>\<open>stop\<close> sets \<^verbatim>\<open>active_\<close> to false and moves the whole of
  \<^verbatim>\<open>waitables_\<close> into its local \<^verbatim>\<open>pending\<close> in one critical section, which is one step
  of the run: after the step the object is not active, the queue is empty, the new
  call holds the old queue, and nothing has been dispatched or given to a runner.
  However the run goes on from there: an operation of that snapshot is never again
  in the queue or in the hands of a poll loop, is never given to the dispatch
  runner, and \<^verbatim>\<open>dispatch\<close> is called on it at most once and with no argument but the
  stop error; either a call of \<^verbatim>\<open>stop\<close> in progress still holds the whole snapshot, or
  \<^verbatim>\<open>dispatch\<close> has been called exactly once, with the stop error, on every operation
  of it, which is so in particular when no call of \<^verbatim>\<open>stop\<close> is in progress any more.
  The call is never stuck: the run can always go on until it has returned.
\<close>

theorem stop_snapshot_then_drain:
  assumes run: "exec evs0 (PollingExecutor sh) = Some s"
    and call: "step Stop s = Some s1"
    and later: "exec evs s1 = Some s2"
  shows "\<not> active s1 \<and> waitables s1 = [] \<and>
         stops s1 = AtRunners (active s) (waitables s) # stops s \<and>
         dispatched s1 = dispatched s \<and> dispatchFunc s1 = dispatchFunc s \<and>
         pollFunc s1 = pollFunc s \<and>
         (\<forall>w \<in> set (waitables s).
            completions s2 w \<le> 1 \<and>
            w \<notin> set (waitables s2) \<and> w \<notin> set (held (tasks (pollFunc s2))) \<and>
            w \<notin> fst ` set (tasks (dispatchFunc s2)) \<and>
            (\<forall>err. (w, err) \<in> set (dispatched s2) \<longrightarrow> err = Some ExecutorStopped)) \<and>
         ((\<exists>f \<in> set (stops s2). frame_pending f = waitables s) \<or>
          (\<forall>w \<in> set (waitables s).
             completions s2 w = 1 \<and> (w, Some ExecutorStopped) \<in> set (dispatched s2))) \<and>
         (stops s2 = [] \<longrightarrow>
            (\<forall>w \<in> set (waitables s).
               completions s2 w = 1 \<and> (w, Some ExecutorStopped) \<in> set (dispatched s2))) \<and>
         (\<exists>evs' s'. exec evs' s2 = Some s' \<and> stops s' = [] \<and>
            (\<forall>w \<in> set (waitables s).
               completions s' w = 1 \<and> (w, Some ExecutorStopped) \<in> set (dispatched s')))"
proof -
  let ?ws = "waitables s"
  from call have s1: "s1 = stop_locked s"
    by (auto split: if_splits)
  from invariant_run [OF run] have I: "invariant s" .
  then have C: "conserved s"
    by (simp add: invariant_def)
  from invariant_step [OF I call] have I1: "invariant s1" .
  from invariant_exec [OF I1 later] have I2: "invariant s2" .
  have Q1: "(\<exists>f\<in>set (stops s1). frame_pending f = ?ws) \<or>
      (\<forall>w\<in>set ?ws. (w, Some ExecutorStopped) \<in> set (dispatched s1))"
    by (simp add: s1)
  have acc: "w \<in> set (accepted s)" if "w \<in> set ?ws" for w
  proof -
    from that have "count_list ?ws w \<noteq> 0"
      by (simp add: count_list_0_iff)
    then have "0 < holders s w"
      by (simp add: holders_def custody_def)
    from holders_accepted [OF C this] show ?thesis .
  qed
  have facts: "completions t w \<le> 1"
      "w \<notin> set (waitables t)" "w \<notin> set (held (tasks (pollFunc t)))"
      "w \<notin> fst ` set (tasks (dispatchFunc t))"
      "\<And>err. (w, err) \<in> set (dispatched t) \<Longrightarrow> err = Some ExecutorStopped"
      "w \<notin> set (pendings (stops t)) \<Longrightarrow>
         completions t w = 1 \<and> (w, Some ExecutorStopped) \<in> set (dispatched t)"
    if r: "exec evs' s1 = Some t" and w: "w \<in> set ?ws" for evs' t w
  proof -
    from call r have r': "exec (Stop # evs') s = Some t"
      by simp
    from accepted_mono [OF r' acc [OF w]] have a: "w \<in> set (accepted t)" .
    from invariant_exec [OF I1 r] have It: "invariant t" .
    from snapshot_exec [OF r Q1] have
      "(\<exists>f\<in>set (stops t). frame_pending f = ?ws) \<or>
       (\<forall>w\<in>set ?ws. (w, Some ExecutorStopped) \<in> set (dispatched t))" .
    then have Q: "w \<in> set (pendings (stops t)) \<or> (w, Some ExecutorStopped) \<in> set (dispatched t)"
    proof
      assume "\<exists>f\<in>set (stops t). frame_pending f = ?ws"
      then obtain f where f: "f \<in> set (stops t)" and p: "frame_pending f = ?ws"
        by blast
      from frame_pending_subset [OF f] p w show ?thesis
        by auto
    next
      assume "\<forall>w\<in>set ?ws. (w, Some ExecutorStopped) \<in> set (dispatched t)"
      with w show ?thesis
        by simp
    qed
    note m = snapshot_member [OF It a Q]
    show "completions t w \<le> 1"
      by (rule m(1))
    show "w \<notin> set (waitables t)"
      by (rule m(2))
    show "w \<notin> set (held (tasks (pollFunc t)))"
      by (rule m(3))
    show "w \<notin> fst ` set (tasks (dispatchFunc t))"
      by (rule m(4))
    show "err = Some ExecutorStopped" if "(w, err) \<in> set (dispatched t)" for err
      using that by (rule m(5))
    show "completions t w = 1 \<and> (w, Some ExecutorStopped) \<in> set (dispatched t)"
      if "w \<notin> set (pendings (stops t))"
      using that by (rule m(6))
  qed
  have whole: "(\<exists>f \<in> set (stops s2). frame_pending f = ?ws) \<or>
      (\<forall>w \<in> set ?ws. completions s2 w = 1 \<and> (w, Some ExecutorStopped) \<in> set (dispatched s2))"
  proof (cases "\<exists>f \<in> set (stops s2). frame_pending f = ?ws")
    case True
    then show ?thesis ..
  next
    case False
    with snapshot_exec [OF later Q1]
    have d: "\<forall>w\<in>set ?ws. (w, Some ExecutorStopped) \<in> set (dispatched s2)"
      by blast
    have "completions s2 w = 1 \<and> (w, Some ExecutorStopped) \<in> set (dispatched s2)"
      if w: "w \<in> set ?ws" for w
    proof -
      from d w have dw: "(w, Some ExecutorStopped) \<in> set (dispatched s2)"
        by blast
      then have "w \<in> set (map fst (dispatched s2))" by force
      then have "completions s2 w \<noteq> 0"
        by (simp add: completions_def count_list_0_iff)
      with facts(1) [OF later w] have "completions s2 w = 1"
        by linarith
      with dw show ?thesis
        by (intro conjI)
    qed
    then show ?thesis
      by blast
  qed
  have returned: "\<forall>w \<in> set ?ws.
      completions t w = 1 \<and> (w, Some ExecutorStopped) \<in> set (dispatched t)"
    if r: "exec evs' s1 = Some t" and e: "stops t = []" for evs' t
  proof
    fix w assume w: "w \<in> set ?ws"
    from e have "w \<notin> set (pendings (stops t))"
      by simp
    then show "completions t w = 1 \<and> (w, Some ExecutorStopped) \<in> set (dispatched t)"
      by (rule facts(6) [OF r w])
  qed
  from wind_down [OF I2] obtain evs' s' where r: "exec evs' s2 = Some s'" and e: "stops s' = []"
    by blast
  from later r have "exec (evs @ evs') s1 = Some s'"
    by (simp add: exec_append)
  from returned [OF this e] r e
  have ex: "\<exists>evs' s'. exec evs' s2 = Some s' \<and> stops s' = [] \<and>
      (\<forall>w \<in> set ?ws. completions s' w = 1 \<and> (w, Some ExecutorStopped) \<in> set (dispatched s'))"
    by blast
  have every: "\<forall>w \<in> set ?ws.
      completions s2 w \<le> 1 \<and>
      w \<notin> set (waitables s2) \<and> w \<notin> set (held (tasks (pollFunc s2))) \<and>
      w \<notin> fst ` set (tasks (dispatchFunc s2)) \<and>
      (\<forall>err. (w, err) \<in> set (dispatched s2) \<longrightarrow> err = Some ExecutorStopped)"
  proof
    fix w assume w: "w \<in> set ?ws"
    have "\<forall>err. (w, err) \<in> set (dispatched s2) \<longrightarrow> err = Some ExecutorStopped"
    proof (intro allI impI)
      fix err assume "(w, err) \<in> set (dispatched s2)"
      with later w show "err = Some ExecutorStopped"
        by (rule facts(5))
    qed
    with facts(1) [OF later w] facts(2) [OF later w] facts(3) [OF later w] facts(4) [OF later w]
    show "completions s2 w \<le> 1 \<and>
      w \<notin> set (waitables s2) \<and> w \<notin> set (held (tasks (pollFunc s2))) \<and>
      w \<notin> fst ` set (tasks (dispatchFunc s2)) \<and>
      (\<forall>err. (w, err) \<in> set (dispatched s2) \<longrightarrow> err = Some ExecutorStopped)"
      by (intro conjI)
  qed
  have fin: "stops s2 = [] \<longrightarrow>
      (\<forall>w \<in> set ?ws. completions s2 w = 1 \<and> (w, Some ExecutorStopped) \<in> set (dispatched s2))"
  proof
    assume "stops s2 = []"
    from returned [OF later this]
    show "\<forall>w \<in> set ?ws. completions s2 w = 1 \<and> (w, Some ExecutorStopped) \<in> set (dispatched s2)" .
  qed
  show ?thesis
  proof (intro conjI)
    show "\<not> active s1" "waitables s1 = []" "stops s1 = AtRunners (active s) ?ws # stops s"
      "dispatched s1 = dispatched s" "dispatchFunc s1 = dispatchFunc s" "pollFunc s1 = pollFunc s"
      by (simp_all add: s1)
  qed (rule every whole fin ex)+
qed

theorem stop_snapshot_then_drain_witness:
  "map_option (\<lambda>s. (active s, waitables s, stops s, dispatched s))
     (exec ([Watch 5, WatchSubmit False, Watch 6] @ [Stop]) (PollingExecutor True))
   = Some (False, [], [AtRunners True [5, 6]], []) \<and>
   map_option (\<lambda>s. (stops s, completions s 5, completions s 6, dispatched s))
     (exec ([Watch 5, WatchSubmit False, Watch 6] @ [Stop] @
            [PollTop, StopStep (AtRunners True [5, 6]), StopStep (AtDispatchStop [5, 6]),
             StopStep (AtDrain [5, 6])])
        (PollingExecutor True))
   = Some ([], 1, 1, [(5, Some ExecutorStopped), (6, Some ExecutorStopped)])"
proof -
  let ?pre = "[Watch 5, WatchSubmit False, Watch 6]"
  let ?post = "[PollTop, StopStep (AtRunners True [5, 6]), StopStep (AtDispatchStop [5, 6]),
             StopStep (AtDrain [5, 6])]"
  have ev: "map_option (\<lambda>s. (active s, waitables s, destructing s, stops s, dispatched s))
      (exec ?pre (PollingExecutor True)) = Some (True, [5, 6], False, [], [])"
    by (simp add: PollingExecutor_def new_runner_def start_def)
  then obtain s where s: "exec ?pre (PollingExecutor True) = Some s"
    by blast
  with ev have f: "active s" "waitables s = [5, 6]" "\<not> destructing s" "stops s = []"
    "dispatched s = []"
    by simp_all
  then have call: "step Stop s = Some (stop_locked s)"
    by simp
  have ev2: "map_option (\<lambda>s. (stops s, dispatched s))
      (exec (?pre @ [Stop] @ ?post) (PollingExecutor True))
    = Some ([], [(5, Some ExecutorStopped), (6, Some ExecutorStopped)])"
    by (simp add: PollingExecutor_def new_runner_def start_def stop_step.simps stop_runner_def
        drain_eq)
  then obtain s2 where s2: "exec (?pre @ [Stop] @ ?post) (PollingExecutor True) = Some s2"
    by blast
  with ev2 have g: "stops s2 = []"
    "dispatched s2 = [(5, Some ExecutorStopped), (6, Some ExecutorStopped)]"
    by simp_all
  from s2 s call have later: "exec ?post (stop_locked s) = Some s2"
    by (simp only: exec_append option.case exec.simps)
  have i: "exec [] (stop_locked s) = Some (stop_locked s)"
    by simp
  from stop_snapshot_then_drain [OF s call i]
  have "\<not> active (stop_locked s) \<and> waitables (stop_locked s) = [] \<and>
      stops (stop_locked s) = AtRunners (active s) (waitables s) # stops s \<and>
      dispatched (stop_locked s) = dispatched s"
    by (elim conjE) (intro conjI)
  with f have 1: "\<not> active (stop_locked s)" "waitables (stop_locked s) = []"
    "stops (stop_locked s) = [AtRunners True [5, 6]]" "dispatched (stop_locked s) = []"
    by simp_all
  from stop_snapshot_then_drain [OF s call later]
  have "stops s2 = [] \<longrightarrow>
      (\<forall>w \<in> set (waitables s).
         completions s2 w = 1 \<and> (w, Some ExecutorStopped) \<in> set (dispatched s2))"
    by (elim conjE)
  with f(2) g(1) have 2: "completions s2 5 = 1" "completions s2 6 = 1"
    by simp_all
  from s call have "exec (?pre @ [Stop]) (PollingExecutor True) = Some (stop_locked s)"
    by (simp only: exec_append option.case exec.simps)
  with 1 2 s2 g show ?thesis
    by simp
qed

text \<open>
  C4. When the object is not active, \<^verbatim>\<open>watch\<close> returns at line 78: nothing changes but
  the record that the call was made, so the operation is not pushed. However the run
  goes on from there, the object never holds that operation and never calls
  \<^verbatim>\<open>dispatch\<close> on it.
\<close>

theorem watch_after_stop_discards:
  assumes run: "exec evs (PollingExecutor sh) = Some s"
    and inactive: "\<not> active s"
    and call: "step (Watch w) s = Some s1"
    and later: "exec evs' s1 = Some s2"
  shows "s1 = s\<lparr>watched := watched s @ [(w, False)]\<rparr> \<and> w \<in> set (discarded s1) \<and>
         w \<notin> set (accepted s2) \<and> w \<notin> set (custody s2) \<and>
         completions s2 w = 0 \<and> w \<notin> fst ` set (dispatched s2)"
proof -
  from call have s1: "s1 = watch_locked w s"
    by (auto split: if_splits)
  with inactive have eq: "s1 = s\<lparr>watched := watched s @ [(w, False)]\<rparr>"
    by (simp add: watch_locked_def)
  from invariant_run [OF run] call have "invariant s1"
    by (rule invariant_step)
  from invariant_exec [OF this later] have C: "conserved s2"
    by (simp add: invariant_def)
  from eq have "(w, False) \<in> set (watched s1)"
    by simp
  with exec_keeps [OF later] have "(w, False) \<in> set (watched s2)"
    by auto
  moreover from C have "distinct (map fst (watched s2))"
    by (simp add: conserved_def)
  ultimately have na: "w \<notin> set (accepted s2)"
    unfolding accepted_def by (intro discarded_not_accepted)
  then have "count_list (accepted s2) w = 0"
    by simp
  with C have "holders s2 w = 0"
    by (simp add: conserved_def)
  then have z: "count_list (custody s2) w = 0" "completions s2 w = 0"
    by (simp_all add: holders_def)
  from z(2) have "w \<notin> fst ` set (dispatched s2)"
    by (simp add: completions_def count_list_0_iff)
  moreover from eq have "w \<in> set (discarded s1)"
    by (simp add: discarded_def)
  ultimately show ?thesis
    using eq z na by (simp add: count_list_0_iff)
qed

theorem watch_after_stop_discards_witness:
  "map_option (\<lambda>s. (active s, waitables s, dispatched s, watched s))
     (exec ([Watch 1, Stop] @ [Watch 8] @
            [StopStep (AtRunners True [1]), StopStep (AtDispatchStop [1]), StopStep (AtDrain [1]),
             Stop, StopStep (AtRunners False []), StopStep (AtDrain [])])
        (PollingExecutor True))
   = Some (False, [], [(1, Some ExecutorStopped)], [(1, True), (8, False)])"
proof -
  let ?pre = "[Watch 1, Stop]"
  let ?post = "[StopStep (AtRunners True [1]), StopStep (AtDispatchStop [1]), StopStep (AtDrain [1]),
             Stop, StopStep (AtRunners False []), StopStep (AtDrain [])]"
  have ev: "map_option (\<lambda>s. (active s, destructing s, watched s))
      (exec ?pre (PollingExecutor True)) = Some (False, False, [(1, True)])"
    by (simp add: PollingExecutor_def new_runner_def start_def)
  then obtain s where s: "exec ?pre (PollingExecutor True) = Some s"
    by blast
  with ev have f: "\<not> active s" "\<not> destructing s" "watched s = [(1, True)]"
    by simp_all
  then have call: "step (Watch 8) s = Some (watch_locked 8 s)"
    by simp
  have ev2: "map_option (\<lambda>s. (active s, waitables s, dispatched s, watched s))
      (exec (?pre @ [Watch 8] @ ?post) (PollingExecutor True))
    = Some (False, [], [(1, Some ExecutorStopped)], [(1, True), (8, False)])"
    by (simp add: PollingExecutor_def new_runner_def start_def stop_step.simps stop_runner_def
        drain_eq)
  then obtain s2 where s2: "exec (?pre @ [Watch 8] @ ?post) (PollingExecutor True) = Some s2"
    by blast
  with s call have later: "exec ?post (watch_locked 8 s) = Some s2"
    by (simp only: exec_append option.case exec.simps)
  from watch_after_stop_discards [OF s f(1) call later] have "8 \<notin> fst ` set (dispatched s2)"
    by simp
  with ev2 show ?thesis
    by simp
qed

text \<open>
  C5, as the specification states it, says that \<^verbatim>\<open>stop\<close> on an object that is not
  active calls \<^verbatim>\<open>dispatch\<close> on no operation, the queue being already empty. The run
  \<open>in_flight_run\<close> ends with a first \<^verbatim>\<open>stop\<close> returned, the object not active and no
  call in progress, and with operation 1 in the queue: the loop pushed it back at
  line 122 after \<^verbatim>\<open>stop\<close> had taken its snapshot. A second \<^verbatim>\<open>stop\<close> calls \<^verbatim>\<open>dispatch\<close> on it.
\<close>

theorem second_stop_dispatches_counterexample:
  "map_option active (exec in_flight_run (PollingExecutor True)) = Some False \<and>
   map_option stops (exec in_flight_run (PollingExecutor True)) = Some [] \<and>
   map_option waitables (exec in_flight_run (PollingExecutor True)) = Some [1] \<and>
   map_option dispatched (exec in_flight_run (PollingExecutor True)) = Some [] \<and>
   map_option dispatched (Option.bind (exec in_flight_run (PollingExecutor True)) stop)
     = Some [(1, Some ExecutorStopped)] \<and>
   map_option dispatched
     (exec (in_flight_run @ [Stop, StopStep (AtRunners False [1]), StopStep (AtDrain [1])])
        (PollingExecutor True))
     = Some [(1, Some ExecutorStopped)]"
  by (simp add: in_flight_run_def PollingExecutor_def new_runner_def start_def stop_step.simps
      stop_runner_def stop_def stop_locked_def)

text \<open>
  C5, amended. \<^verbatim>\<open>stop\<close> on an object that is not active never blocks and stops
  neither runner: whatever their state, the call leaves both as they are and skips
  from line 149 to line 154. It calls \<^verbatim>\<open>dispatch\<close> with the stop error on exactly the
  operations that are in the queue at that moment, and empties the queue; when the
  queue is empty the call changes nothing at all.
\<close>

theorem stop_when_inactive:
  assumes "\<not> active s"
  shows "stop s = Some (s\<lparr>waitables := [],
             dispatched := dispatched s @ map (\<lambda>w. (w, Some ExecutorStopped)) (waitables s)\<rparr>) \<and>
         (waitables s = [] \<longrightarrow> stop s = Some s) \<and>
         stop_step (AtRunners (active s) pending) t
           = Some (t\<lparr>stops := AtDrain pending # remove1 (AtRunners False pending) (stops t)\<rparr>)"
proof -
  have eq: "s\<lparr>active := False\<rparr> = s"
    using assms by simp
  have "stop s = Some (s\<lparr>active := False, waitables := [],
      dispatched := dispatched s @ map (\<lambda>w. (w, Some ExecutorStopped)) (waitables s)\<rparr>)"
    using assms
    by (simp add: stop_def stop_locked_def stop_step.simps drain_eq)
  then have 1: "stop s = Some (s\<lparr>waitables := [],
      dispatched := dispatched s @ map (\<lambda>w. (w, Some ExecutorStopped)) (waitables s)\<rparr>)"
    using eq by simp
  have 2: "stop s = Some s" if "waitables s = []"
  proof -
    have "s\<lparr>waitables := [], dispatched := dispatched s\<rparr> = s"
      using that by simp
    with 1 that show ?thesis by simp
  qed
  from 1 2 assms show ?thesis
    by (simp add: stop_step.simps)
qed

theorem stop_when_inactive_witness:
  "map_option (\<lambda>s. (stopped (pollFunc s), stopped (dispatchFunc s), waitables s, dispatched s))
     (Option.bind (exec in_flight_run (PollingExecutor True)) stop)
   = Some (True, True, [], [(1, Some ExecutorStopped)])"
proof -
  have ev: "map_option (\<lambda>s. (active s, stopped (pollFunc s), stopped (dispatchFunc s),
      waitables s, dispatched s)) (exec in_flight_run (PollingExecutor True))
    = Some (False, True, True, [1], [])"
    by (simp add: in_flight_run_def PollingExecutor_def new_runner_def start_def stop_step.simps
      stop_runner_def)
  then obtain s where s: "exec in_flight_run (PollingExecutor True) = Some s"
    by blast
  with ev have f: "\<not> active s" "stopped (pollFunc s)" "stopped (dispatchFunc s)"
    "waitables s = [1]" "dispatched s = []"
    by simp_all
  from stop_when_inactive [OF f(1), of "[]" s] s f show ?thesis
    by simp
qed

text \<open>
  C6. In a run, let the poll loop hold \<open>w\<close> and let \<^verbatim>\<open>wait\<close> throw \<open>x\<close>. The step of the
  loop is defined (nothing is thrown out of it): it appends to the work of the
  dispatch runner the item that calls \<^verbatim>\<open>dispatch\<close> on \<open>w\<close> with the caught \<open>x\<close>, discards
  nothing, leaves the queue, the flags and the calls of \<^verbatim>\<open>dispatch\<close> made so far as
  they were, and is back at the head of the loop. Running that item calls
  \<^verbatim>\<open>dispatch\<close> with \<open>x\<close>, and however the run goes on, every call of \<^verbatim>\<open>dispatch\<close> on \<open>w\<close>
  has the argument \<open>x\<close>.
\<close>

theorem wait_error_is_dispatched:
  assumes run: "exec evs (PollingExecutor sh) = Some s"
    and h: "Holding w \<in> set (tasks (pollFunc s))"
    and s1: "s1 = poll_body w (Threw x) late s"
  shows "step (PollBody w (Threw x) late) s = Some s1 \<and>
         tasks (dispatchFunc s1) = tasks (dispatchFunc s) @ [(w, Some (WaitError x))] \<and>
         dropped (dispatchFunc s1) = [] \<and>
         tasks (pollFunc s1) = [AtTop] \<and> waitables s1 = waitables s \<and>
         active s1 = active s \<and> isPollerRunning s1 \<and> dispatched s1 = dispatched s \<and>
         step (Dispatch w (Some (WaitError x))) s1
           = Some (dispatch_run (w, Some (WaitError x)) s1) \<and>
         dispatched (dispatch_run (w, Some (WaitError x)) s1)
           = dispatched s @ [(w, Some (WaitError x))] \<and>
         (\<forall>evs' s2 err. exec evs' s1 = Some s2 \<and> (w, err) \<in> set (dispatched s2)
            \<longrightarrow> err = Some (WaitError x))"
proof -
  from invariant_run [OF run]
  have L: "lifecycle s" and P: "provenance s" and S: "single_poller s" and I: "invariant s"
    by (simp_all add: invariant_def)
  from h have st: "step (PollBody w (Threw x) late) s = Some s1"
    by (simp add: s1)
  from h have hw: "w \<in> set (held (tasks (pollFunc s)))"
    by (simp add: Holding_in_held)
  then have "held (tasks (pollFunc s)) \<noteq> []"
    by auto
  with L have ns: "\<not> stopped (dispatchFunc s)" and nd: "dropped (dispatchFunc s) = []"
    by (auto simp: lifecycle_def)
  note only = the_poller [OF S h]
  from provenanceD(3) [OF P, of w] hw have "answers s w = []"
    by simp
  then have a1: "answers s1 w = [Threw x]"
    by (simp add: s1 answers_poll_body)
  have always: "err = Some (WaitError x)"
    if "exec evs' s1 = Some s2 \<and> (w, err) \<in> set (dispatched s2)" for evs' s2 err
  proof -
    from that have r: "exec evs' s1 = Some s2" and d: "(w, err) \<in> set (dispatched s2)"
      by simp_all
    from invariant_exec [OF invariant_step [OF I st] r] have "provenance s2"
      by (simp add: invariant_def)
    from provenanceD(2) [OF this d] have e: "explained s2 (w, err)" .
    from exec_waited [OF r] obtain zs where "waited s2 = waited s1 @ zs"
      by blast
    from answers_grow [OF this, of w] a1 obtain as where "answers s2 w = Threw x # as"
      by auto
    with e show ?thesis
      by (cases "(s2, (w, err))" rule: explained.cases) simp_all
  qed
  from st ns nd only show ?thesis
    using always by (simp add: s1)
qed

theorem wait_error_is_dispatched_witness:
  "map_option dispatched
     (exec [Watch 1, Watch 2, WatchSubmit False, PollTop, PollBody 1 (Threw 7) False,
            Dispatch 1 (Some (WaitError 7)), PollTop, PollBody 2 Ready False, Dispatch 2 None]
        (PollingExecutor True))
   = Some [(1, Some (WaitError 7)), (2, None)]"
proof -
  let ?pre = "[Watch 1, Watch 2, WatchSubmit False, PollTop]"
  let ?post = "[Dispatch 1 (Some (WaitError 7)), PollTop, PollBody 2 Ready False, Dispatch 2 None]"
  have ev: "map_option (\<lambda>s. tasks (pollFunc s)) (exec ?pre (PollingExecutor True))
      = Some [Holding 1]"
    by (simp add: PollingExecutor_def new_runner_def start_def)
  then obtain s where s: "exec ?pre (PollingExecutor True) = Some s"
    by blast
  with ev have h: "Holding 1 \<in> set (tasks (pollFunc s))"
    by simp
  note c6 = wait_error_is_dispatched [OF s h refl, of 7 False]
  have ev2: "map_option dispatched (exec (?pre @ [PollBody 1 (Threw 7) False] @ ?post)
      (PollingExecutor True)) = Some [(1, Some (WaitError 7)), (2, None)]"
    by (simp add: PollingExecutor_def new_runner_def start_def)
  then obtain s2 where s2: "exec (?pre @ [PollBody 1 (Threw 7) False] @ ?post)
      (PollingExecutor True) = Some s2"
    by blast
  with s c6 have "exec ?post (poll_body 1 (Threw 7) False s) = Some s2"
    by (simp only: exec_append option.case exec.simps)
  with c6 have "\<forall>err. (1, err) \<in> set (dispatched s2) \<longrightarrow> err = Some (WaitError 7)"
    by blast
  with ev2 show ?thesis
    by simp
qed

text \<open>
  C7. In a run, let \<^verbatim>\<open>wait\<close> on the popped \<open>a\<close> return false. The step of the loop pushes
  \<open>a\<close> to the tail of the queue, hands nothing to the dispatch runner and is back at
  the head of the loop. However the run goes on from there, under any interleaving
  of \<^verbatim>\<open>watch\<close>, \<^verbatim>\<open>stop\<close> and the loop: when \<open>a\<close> is popped again, \<^verbatim>\<open>wait\<close> has been called, since
  the push, on every operation that was in the queue when \<open>a\<close> was pushed back.
\<close>

theorem round_robin:
  assumes run: "exec evs0 (PollingExecutor sh) = Some s0"
    and pushback: "step (PollBody a NotReady late) s0 = Some s1"
    and later: "exec evs s1 = Some s"
    and again: "Holding a \<in> set (tasks (pollFunc s))"
  shows "waitables s1 = waitables s0 @ [a] \<and> tasks (pollFunc s1) = [AtTop] \<and>
         dispatchFunc s1 = dispatchFunc s0 \<and> dispatched s1 = dispatched s0 \<and>
         waited s1 = waited s0 @ [(a, NotReady)] \<and>
         (\<forall>b \<in> set (waitables s0). b \<in> checked_since (length (waited s1)) s)"
proof -
  from pushback have h: "Holding a \<in> set (tasks (pollFunc s0))"
    and s1: "s1 = poll_body a NotReady late s0"
    by (auto split: if_splits)
  from invariant_run [OF run] have I0: "invariant s0" .
  then have S: "single_poller s0"
    by (simp add: invariant_def)
  from invariant_step [OF I0 pushback] have I1: "invariant s1" .
  have q: "waitables s1 = waitables s0 @ a # []"
    by (simp add: s1)
  have "b \<in> checked_since (length (waited s1)) s" if "b \<in> set (waitables s0)" for b
    using fifo_turns [OF I1 q that later again] .
  with the_poller(1) [OF S h] show ?thesis
    by (simp add: s1)
qed

theorem round_robin_witness:
  "map_option (\<lambda>s. (tasks (pollFunc s), waitables s, waited s))
     (exec ([Watch 1, WatchSubmit False, Watch 2, Watch 3, PollTop] @ [PollBody 1 NotReady False] @
            [PollTop, Watch 4, PollBody 2 NotReady False, PollTop, PollBody 3 Ready False, PollTop])
        (PollingExecutor True))
   = Some ([Holding 1], [4, 2], [(1, NotReady), (2, NotReady), (3, Ready)])"
proof -
  let ?pre = "[Watch 1, WatchSubmit False, Watch 2, Watch 3, PollTop]"
  let ?post = "[PollTop, Watch 4, PollBody 2 NotReady False, PollTop, PollBody 3 Ready False, PollTop]"
  have ev: "map_option (\<lambda>s. (tasks (pollFunc s), waitables s, waited s))
      (exec ?pre (PollingExecutor True)) = Some ([Holding 1], [2, 3], [])"
    by (simp add: PollingExecutor_def new_runner_def start_def)
  then obtain s0 where s0: "exec ?pre (PollingExecutor True) = Some s0"
    by blast
  with ev have f: "tasks (pollFunc s0) = [Holding 1]" "waitables s0 = [2, 3]" "waited s0 = []"
    by simp_all
  then have pb: "step (PollBody 1 NotReady False) s0 = Some (poll_body 1 NotReady False s0)"
    by simp
  have ev2: "map_option (\<lambda>s. (tasks (pollFunc s), waitables s, waited s))
      (exec (?pre @ [PollBody 1 NotReady False] @ ?post) (PollingExecutor True))
    = Some ([Holding 1], [4, 2], [(1, NotReady), (2, NotReady), (3, Ready)])"
    by (simp add: PollingExecutor_def new_runner_def start_def)
  then obtain s where s: "exec (?pre @ [PollBody 1 NotReady False] @ ?post) (PollingExecutor True) = Some s"
    by blast
  with ev2 have g: "tasks (pollFunc s) = [Holding 1]"
    by simp
  from s s0 pb have later: "exec ?post (poll_body 1 NotReady False s0) = Some s"
    by (simp only: exec_append option.case exec.simps)
  from g have again: "Holding 1 \<in> set (tasks (pollFunc s))"
    by simp
  from round_robin [OF s0 pb later again] f
  have "2 \<in> checked_since 1 s \<and> 3 \<in> checked_since 1 s"
    by simp
  with ev2 show ?thesis
    by simp
qed

text \<open>
  C8. The destructor is a call of \<^verbatim>\<open>stop\<close>: its first step is the critical section of
  \<^verbatim>\<open>stop\<close>, and as a whole it does what \<^verbatim>\<open>stop\<close> does. In every run, whatever else runs
  in between: when the destructor has returned, both runners are stopped (and they
  were running before if the object was still active), the queue is empty, and on
  every operation that was in the queue when the destructor started \<^verbatim>\<open>dispatch\<close> has
  been called exactly once, with the stop error. The destructor is never stuck: the
  run can always go on until it has returned.
\<close>

theorem destructor_stops:
  assumes run: "exec evs0 (PollingExecutor sh) = Some s"
    and destroy: "step Destroy s = Some s1"
    and later: "exec evs s1 = Some s2"
    and returned: "stops s2 = []"
  shows "s1 = (stop_locked s)\<lparr>destructing := True\<rparr> \<and>
         destructor s = map_option (\<lambda>t. t\<lparr>destructing := True\<rparr>) (stop s) \<and>
         (active s \<longrightarrow> \<not> stopped (pollFunc s) \<and> \<not> stopped (dispatchFunc s)) \<and>
         stopped (pollFunc s2) \<and> stopped (dispatchFunc s2) \<and> waitables s2 = [] \<and>
         (\<forall>w \<in> set (waitables s).
            completions s2 w = 1 \<and> (w, Some ExecutorStopped) \<in> set (dispatched s2)) \<and>
         (\<exists>evs' s'. exec evs' s1 = Some s' \<and> stops s' = [])"
proof -
  from destroy have s1: "s1 = stop_locked (s\<lparr>destructing := True\<rparr>)"
    by (auto split: if_splits)
  then have eq: "s1 = (stop_locked s)\<lparr>destructing := True\<rparr>"
    by (simp add: stop_locked_def)
  from invariant_run [OF run] have I: "invariant s" .
  then have L: "lifecycle s" and C: "conserved s" and P: "provenance s"
    by (simp_all add: invariant_def)
  from invariant_step [OF I destroy] have I1: "invariant s1" .
  from invariant_exec [OF I1 later] have I2: "invariant s2" .
  then have L2: "lifecycle s2" and C2: "conserved s2" and P2: "provenance s2"
    by (simp_all add: invariant_def)
  have d1: "destructing s1" and w1: "waited s1 = waited s"
    by (simp_all add: s1)
  from exec_destructing [OF later d1 I1] w1
  have d2: "destructing s2" and w2: "waited s2 = waited s"
    by simp_all
  from L have before: "active s \<longrightarrow> \<not> stopped (pollFunc s) \<and> \<not> stopped (dispatchFunc s)"
    by (auto simp: lifecycle_def)
  from L2 d2 returned have after: "stopped (pollFunc s2)" "stopped (dispatchFunc s2)"
    "waitables s2 = []" "dropped (dispatchFunc s2) = []"
    by (auto simp: lifecycle_def)
  have each: "completions s2 w = 1 \<and> (w, Some ExecutorStopped) \<in> set (dispatched s2)"
    if w: "w \<in> set (waitables s)" for w
  proof -
    from w have "count_list (waitables s) w \<noteq> 0"
      by (simp add: count_list_0_iff)
    then have "0 < holders s w"
      by (simp add: holders_def custody_def)
    from holders_accepted [OF C this] have "w \<in> set (accepted s)" .
    moreover from step_keeps(3) [OF destroy] exec_keeps [OF later]
    have "set (watched s) \<subseteq> set (watched s2)"
      by blast
    ultimately have "w \<in> set (accepted s2)"
      by (auto simp: accepted_def)
    then have "count_list (accepted s2) w \<noteq> 0"
      by (simp add: count_list_0_iff)
    with C2 holders_le_1 [OF C2, of w] have "holders s2 w = 1"
      by (simp add: conserved_def)
    with no_custody_left [OF L2 d2 returned] after(4) have one: "completions s2 w = 1"
      by (simp add: holders_def)
    then obtain err where d: "(w, err) \<in> set (dispatched s2)"
      using completed_in_log [of s2 w] by auto
    from provenanceD(3) [OF P, of w] w have "answers s w = []"
      by simp
    with w2 have "answers s2 w = []"
      by (simp add: answers_def)
    with provenanceD(2) [OF P2 d] have "err = Some ExecutorStopped"
      by (cases "(s2, (w, err))" rule: explained.cases) simp_all
    with one d show ?thesis
      by simp
  qed
  from wind_down [OF I1] have "\<exists>evs' s'. exec evs' s1 = Some s' \<and> stops s' = []"
    by blast
  with eq before after each show ?thesis
    by (simp add: destructor_is_stop)
qed

theorem destructor_stops_witness:
  "map_option (\<lambda>s. (stopped (pollFunc s), stopped (dispatchFunc s), waitables s, dispatched s))
     (exec ([Watch 5, WatchSubmit False, Watch 6] @ [Destroy] @
            [StopStep (AtRunners True [5, 6]), StopStep (AtDispatchStop [5, 6]),
             StopStep (AtDrain [5, 6])])
        (PollingExecutor False))
   = Some (True, True, [], [(5, Some ExecutorStopped), (6, Some ExecutorStopped)])"
proof -
  let ?pre = "[Watch 5, WatchSubmit False, Watch 6]"
  let ?post = "[StopStep (AtRunners True [5, 6]), StopStep (AtDispatchStop [5, 6]),
             StopStep (AtDrain [5, 6])]"
  have ev: "map_option (\<lambda>s. (active s, waitables s, destructing s, submitting s, stops s,
        tasks (pollFunc s)))
      (exec ?pre (PollingExecutor False)) = Some (True, [5, 6], False, 0, [], [])"
    by (simp add: PollingExecutor_def new_runner_def start_def)
  then obtain s where s: "exec ?pre (PollingExecutor False) = Some s"
    by blast
  with ev have f: "active s" "waitables s = [5, 6]" "\<not> destructing s" "submitting s = 0"
    "stops s = []" "tasks (pollFunc s) = []"
    by simp_all
  then have destroy: "step Destroy s = Some (stop_locked (s\<lparr>destructing := True\<rparr>))"
    by simp
  have ev2: "map_option (\<lambda>s. (stops s, waitables s, dispatched s))
      (exec (?pre @ [Destroy] @ ?post) (PollingExecutor False))
    = Some ([], [], [(5, Some ExecutorStopped), (6, Some ExecutorStopped)])"
    by (simp add: PollingExecutor_def new_runner_def start_def stop_step.simps stop_runner_def
        drain_eq)
  then obtain s2 where s2: "exec (?pre @ [Destroy] @ ?post) (PollingExecutor False) = Some s2"
    by blast
  with ev2 have g: "stops s2 = []"
    by simp
  from s2 s destroy have later: "exec ?post (stop_locked (s\<lparr>destructing := True\<rparr>)) = Some s2"
    by (simp only: exec_append option.case exec.simps)
  from destructor_stops [OF s destroy later g]
  have "stopped (pollFunc s2)" "stopped (dispatchFunc s2)"
    by simp_all
  with s2 ev2 show ?thesis
    by simp
qed

text \<open>
  C9. In every run the dispatch runner is stopped only after the poll runner: the call
  of \<^verbatim>\<open>stop\<close> that found the object active stops the poll runner at line 150 while the
  dispatch runner still runs, and the dispatch runner at line 151 in a later step,
  when the poll runner is stopped and every work item given to the dispatch runner
  has been run. A poll loop hands work to the dispatch runner only while that runner
  is not stopped, so no work item is ever discarded.
\<close>

theorem poll_runner_stopped_first:
  assumes run: "exec evs (PollingExecutor sh) = Some s"
  shows "(stopped (dispatchFunc s) \<longrightarrow> stopped (pollFunc s) \<and> tasks (dispatchFunc s) = []) \<and>
         dropped (dispatchFunc s) = [] \<and>
         (step (StopStep (AtRunners True p)) s = Some s' \<longrightarrow>
            tasks (pollFunc s) = [] \<and> stopped (pollFunc s') \<and>
            \<not> stopped (dispatchFunc s') \<and> AtDispatchStop p \<in> set (stops s')) \<and>
         (step (StopStep (AtDispatchStop p)) s = Some s' \<longrightarrow>
            stopped (pollFunc s) \<and> tasks (dispatchFunc s) = [] \<and> stopped (dispatchFunc s')) \<and>
         (step (PollBody w out late) s = Some s' \<longrightarrow>
            \<not> stopped (dispatchFunc s) \<and> dropped (dispatchFunc s') = [] \<and>
            (out \<noteq> NotReady \<longrightarrow>
               tasks (dispatchFunc s') = tasks (dispatchFunc s) @ [(w, snd (poll_wait out))]))"
proof -
  from invariant_run [OF run]
  have L: "lifecycle s" and O: "one_stopper s"
    by (simp_all add: invariant_def)
  from L have 1: "stopped (dispatchFunc s) \<longrightarrow> stopped (pollFunc s) \<and> tasks (dispatchFunc s) = []"
    and 2: "dropped (dispatchFunc s) = []"
    by (simp_all add: lifecycle_def)
  have 3: "tasks (pollFunc s) = [] \<and> stopped (pollFunc s') \<and>
      \<not> stopped (dispatchFunc s') \<and> AtDispatchStop p \<in> set (stops s')"
    if "step (StopStep (AtRunners True p)) s = Some s'"
  proof -
    from that have mem: "AtRunners True p \<in> set (stops s)"
      and ss: "stop_step (AtRunners True p) s = Some s'"
      by (auto split: if_splits)
    from mem have "filter stopping_runners (stops s) \<noteq> []"
      by (force simp: filter_empty_conv)
    with O have "\<not> stopped (dispatchFunc s)"
      by (auto simp: one_stopper_def split: if_splits)
    with ss show ?thesis
      by (simp add: stop_step_Some)
  qed
  have 4: "stopped (pollFunc s) \<and> tasks (dispatchFunc s) = [] \<and> stopped (dispatchFunc s')"
    if "step (StopStep (AtDispatchStop p)) s = Some s'"
  proof -
    from that have mem: "AtDispatchStop p \<in> set (stops s)"
      and ss: "stop_step (AtDispatchStop p) s = Some s'"
      by (auto split: if_splits)
    from L have "\<forall>g\<in>set (stops s). at_dispatch_stop g \<longrightarrow> stopped (pollFunc s)"
      by (simp add: lifecycle_def)
    from bspec [OF this mem] ss show ?thesis
      by (simp add: stop_step_Some)
  qed
  have 5: "\<not> stopped (dispatchFunc s) \<and> dropped (dispatchFunc s') = [] \<and>
      (out \<noteq> NotReady \<longrightarrow>
         tasks (dispatchFunc s') = tasks (dispatchFunc s) @ [(w, snd (poll_wait out))])"
    if "step (PollBody w out late) s = Some s'"
  proof -
    from that have h: "Holding w \<in> set (tasks (pollFunc s))" and s': "s' = poll_body w out late s"
      by (auto split: if_splits)
    from h have "held (tasks (pollFunc s)) \<noteq> []"
      by (auto simp: Holding_in_held)
    with L have "\<not> stopped (dispatchFunc s)"
      by (auto simp: lifecycle_def)
    with 2 show ?thesis
      by (simp add: s')
  qed
  from 1 2 3 4 5 show ?thesis
    by blast
qed

theorem poll_runner_stopped_first_witness:
  "map_option (\<lambda>s. (stopped (pollFunc s), stopped (dispatchFunc s), dispatched s))
     (exec [Watch 1, WatchSubmit False, PollTop, Stop, PollBody 1 Ready False, PollTop,
            StopStep (AtRunners True [])]
        (PollingExecutor True))
   = Some (True, False, []) \<and>
   map_option (\<lambda>s. (stopped (pollFunc s), stopped (dispatchFunc s), dispatched s))
     (exec [Watch 1, WatchSubmit False, PollTop, Stop, PollBody 1 Ready False, PollTop,
            StopStep (AtRunners True []), Dispatch 1 None, StopStep (AtDispatchStop [])]
        (PollingExecutor True))
   = Some (True, True, [(1, None)])"
proof -
  let ?pre = "[Watch 1, WatchSubmit False, PollTop, Stop, PollBody 1 Ready False, PollTop]"
  have ev: "map_option (\<lambda>s. (stops s, tasks (pollFunc s), dispatched s))
      (exec ?pre (PollingExecutor True)) = Some ([AtRunners True []], [], [])"
    by (simp add: PollingExecutor_def new_runner_def start_def)
  then obtain s where s: "exec ?pre (PollingExecutor True) = Some s"
    by blast
  with ev have f: "stops s = [AtRunners True []]" "tasks (pollFunc s) = []" "dispatched s = []"
    by simp_all
  then obtain s' where st: "step (StopStep (AtRunners True [])) s = Some s'"
    by (simp add: stop_step.simps stop_runner_def)
  with poll_runner_stopped_first [OF s, of "[]" s']
  have g: "stopped (pollFunc s')" "\<not> stopped (dispatchFunc s')"
    by simp_all
  from st f have d: "dispatched s' = []"
    by (auto simp: stop_step.simps stop_runner_def)
  from s st have "exec (?pre @ [StopStep (AtRunners True [])]) (PollingExecutor True) = Some s'"
    by (simp only: exec_append option.case exec.simps)
  with g d have 1: "map_option (\<lambda>s. (stopped (pollFunc s), stopped (dispatchFunc s), dispatched s))
      (exec (?pre @ [StopStep (AtRunners True [])]) (PollingExecutor True)) = Some (True, False, [])"
    by simp
  have 2: "map_option (\<lambda>s. (stopped (pollFunc s), stopped (dispatchFunc s), dispatched s))
     (exec [Watch 1, WatchSubmit False, PollTop, Stop, PollBody 1 Ready False, PollTop,
            StopStep (AtRunners True []), Dispatch 1 None, StopStep (AtDispatchStop [])]
        (PollingExecutor True))
   = Some (True, True, [(1, None)])"
    by (simp add: PollingExecutor_def new_runner_def start_def stop_step.simps stop_runner_def)
  from 1 2 show ?thesis
    by simp
qed

text \<open>
  C10. On an object that no \<^verbatim>\<open>shared_ptr\<close> manages, a call of \<^verbatim>\<open>watch\<close> that finds the
  object active and no poller running pushes the operation and sets the flag in its
  critical section, and then leaves by the \<^verbatim>\<open>bad_weak_ptr\<close> of \<^verbatim>\<open>shared_from_this\<close>: the
  operation is in the queue, the flag is set, and nothing was given to the poll
  runner. In every run of such an object no poll loop is ever alive.
\<close>

theorem watch_without_shared_owner:
  assumes run: "exec evs (PollingExecutor False) = Some s"
  shows "tasks (pollFunc s) = [] \<and>
         (active s \<and> \<not> isPollerRunning s \<longrightarrow>
            watch_submit late (watch_locked w s)
              = (Some BadWeakPtr,
                 s\<lparr>isPollerRunning := True, waitables := waitables s @ [w],
                   watched := watched s @ [(w, True)]\<rparr>)) \<and>
         (step (WatchSubmit late) s = Some s' \<longrightarrow>
            fst (watch_submit late s) = Some BadWeakPtr \<and> pollFunc s' = pollFunc s \<and>
            waitables s' = waitables s \<and> isPollerRunning s' = isPollerRunning s)"
proof -
  from exec_keeps [OF run] have o: "\<not> owned s"
    by (simp add: PollingExecutor_def)
  from invariant_run [OF run] have "lifecycle s"
    by (simp add: invariant_def)
  with o have 1: "tasks (pollFunc s) = []"
    by (simp add: lifecycle_def)
  have 2: "watch_submit late (watch_locked w s)
      = (Some BadWeakPtr,
         s\<lparr>isPollerRunning := True, waitables := waitables s @ [w],
           watched := watched s @ [(w, True)]\<rparr>)"
    if "active s \<and> \<not> isPollerRunning s"
    using that o by (simp add: watch_submit_def watch_locked_def)
  have 3: "fst (watch_submit late s) = Some BadWeakPtr \<and> pollFunc s' = pollFunc s \<and>
      waitables s' = waitables s \<and> isPollerRunning s' = isPollerRunning s"
    if "step (WatchSubmit late) s = Some s'"
    using that o by (auto split: if_splits)
  from 1 2 3 show ?thesis
    by blast
qed

theorem watch_without_shared_owner_witness:
  "map_option (\<lambda>s. (waitables s, isPollerRunning s, tasks (pollFunc s), submitting s))
     (exec [Watch 1, WatchSubmit False, Watch 2] (PollingExecutor False))
   = Some ([1, 2], True, [], 0) \<and>
   fst (watch_submit False (watch_locked 1 (PollingExecutor False))) = Some BadWeakPtr"
proof -
  let ?evs = "[Watch 1, WatchSubmit False, Watch 2]"
  have ev: "map_option (\<lambda>s. (waitables s, isPollerRunning s, submitting s))
      (exec ?evs (PollingExecutor False)) = Some ([1, 2], True, 0)"
    by (simp add: PollingExecutor_def new_runner_def start_def)
  then obtain s where s: "exec ?evs (PollingExecutor False) = Some s"
    by blast
  have i: "exec [] (PollingExecutor False) = Some (PollingExecutor False)"
    by simp
  have a: "active (PollingExecutor False) \<and> \<not> isPollerRunning (PollingExecutor False)"
    by (simp add: PollingExecutor_def)
  from watch_without_shared_owner [OF s, of False 0 s] have "tasks (pollFunc s) = []"
    by (rule conjunct1)
  moreover from watch_without_shared_owner [OF i, of False 1 s] a
  have "fst (watch_submit False (watch_locked 1 (PollingExecutor False))) = Some BadWeakPtr"
    by simp
  ultimately show ?thesis
    using s ev by simp
qed

end
